theory Spec2Isabelle
  imports Complex_Main "HOL-Library.Sublist" "HOL-Library.Multiset"
begin

section \<open>Strings\<close>

text \<open>
  A Go \<^verbatim>\<open>string\<close> is a sequence of bytes and \<^verbatim>\<open>len\<close> counts bytes, so a Go string is a
  \<^typ>\<open>string\<close> (a list of 8-bit characters) and \<^verbatim>\<open>len\<close> is \<^const>\<open>length\<close>.
\<close>

definition HasPrefix :: "string \<Rightarrow> string \<Rightarrow> bool" where
  "HasPrefix s p = prefix p s"

definition HasSuffix :: "string \<Rightarrow> string \<Rightarrow> bool" where
  "HasSuffix s x = suffix x s"

definition TrimPrefix :: "string \<Rightarrow> string \<Rightarrow> string" where
  "TrimPrefix s p = (if HasPrefix s p then drop (length p) s else s)"

definition TrimSuffix :: "string \<Rightarrow> string \<Rightarrow> string" where
  "TrimSuffix s x = (if HasSuffix s x then take (length s - length x) s else s)"

section \<open>The stemmer\<close>

definition prefixes :: "string list" where
  "prefixes =
    [''me'', ''pe'', ''be'', ''te'', ''di'', ''ke'', ''se'',
     ''ber'', ''per'', ''ter'', ''mem'', ''pem'', ''pen'',
     ''meng'', ''peng'', ''meny'', ''peny'']"

definition suffixes :: "string list" where
  "suffixes =
    [''kan'', ''an'', ''i'', ''lah'', ''kah'', ''nya'', ''ku'', ''mu'',
     ''wan'', ''wati'', ''isme'']"

text \<open>
  The first loop of \<^verbatim>\<open>stem\<close>: the word is cut at the first suffix of the list that it ends
  with, and the loop is left (\<^verbatim>\<open>break\<close>).
\<close>

fun stem_suffix_loop :: "string list \<Rightarrow> string \<Rightarrow> string" where
  "stem_suffix_loop [] word = word"
| "stem_suffix_loop (x # xs) word =
     (if HasSuffix word x then TrimSuffix word x else stem_suffix_loop xs word)"

text \<open>
  The second loop: a prefix that the word starts with is cut, and the loop left, only when
  at least 4 bytes remain; otherwise the loop goes on to the next prefix of the list.
\<close>

fun stem_prefix_loop :: "string list \<Rightarrow> string \<Rightarrow> string" where
  "stem_prefix_loop [] word = word"
| "stem_prefix_loop (p # ps) word =
     (if HasPrefix word p then
        (let stemmed = TrimPrefix word p in
         if length stemmed \<ge> 4 then stemmed else stem_prefix_loop ps word)
      else stem_prefix_loop ps word)"

definition stem :: "string \<Rightarrow> string" where
  "stem word =
     (if length word < 4 then word
      else
        (let origWord = word;
             word1 = stem_suffix_loop suffixes word;
             word2 = stem_prefix_loop prefixes word1
         in if length word2 < 3 then origWord else word2))"

definition stemming :: "string list \<Rightarrow> string list" where
  "stemming tokens = map stem tokens"

subsection \<open>The stemmer as the specification words it\<close>

text \<open>
  The specification's reading: the first suffix of the list that matches is stripped; then
  the first prefix of the list that matches is looked up, and it is stripped only if at
  least 4 bytes remain; a result shorter than 3 bytes is discarded.
\<close>

definition strip_first_suffix :: "string \<Rightarrow> string" where
  "strip_first_suffix word =
     (case find (\<lambda>x. suffix x word) suffixes of
        None \<Rightarrow> word
      | Some x \<Rightarrow> take (length word - length x) word)"

definition strip_first_prefix :: "string \<Rightarrow> string" where
  "strip_first_prefix word =
     (case find (\<lambda>p. prefix p word) prefixes of
        None \<Rightarrow> word
      | Some p \<Rightarrow> if length word - length p \<ge> 4 then drop (length p) word else word)"

definition stem_spec :: "string \<Rightarrow> string" where
  "stem_spec word =
     (if length word < 4 then word
      else
        (let s = strip_first_prefix (strip_first_suffix word)
         in if length s < 3 then word else s))"

section \<open>Bytes, runes and the string library\<close>

text \<open>
  The character classes of Go's \<^verbatim>\<open>regexp\<close> are ASCII classes: \<^verbatim>\<open>\d\<close> is \<^verbatim>\<open>[0-9]\<close>, \<^verbatim>\<open>\w\<close> is
  \<^verbatim>\<open>[0-9A-Za-z_]\<close> and \<^verbatim>\<open>\s\<close> is \<^verbatim>\<open>[\t\n\f\r ]\<close> (no vertical tab).
\<close>

definition is_digit :: "char \<Rightarrow> bool" where
  "is_digit c = (c \<in> set ''0123456789'')"

definition is_upper :: "char \<Rightarrow> bool" where
  "is_upper c = (c \<in> set ''ABCDEFGHIJKLMNOPQRSTUVWXYZ'')"

definition is_lower :: "char \<Rightarrow> bool" where
  "is_lower c = (c \<in> set ''abcdefghijklmnopqrstuvwxyz'')"

definition is_letter :: "char \<Rightarrow> bool" where
  "is_letter c = (is_upper c \<or> is_lower c)"

definition is_word :: "char \<Rightarrow> bool" where
  "is_word c = (is_digit c \<or> is_letter c \<or> c = CHR ''_'')"

definition regex_space :: "char \<Rightarrow> bool" where
  "regex_space c = (c \<in> {CHR 0x09, CHR 0x0A, CHR 0x0C, CHR 0x0D, CHR '' ''})"

text \<open>
  \<^verbatim>\<open>unicode.IsSpace\<close> on an ASCII byte: the class \<^verbatim>\<open>\s\<close> and the vertical tab.
  \<^verbatim>\<open>strings.Fields\<close>, \<^verbatim>\<open>strings.TrimSpace\<close> and \<^verbatim>\<open>strings.ToLower\<close> are modelled on ASCII
  text: every text the program passes to them has been through a pattern that replaces
  all bytes outside ASCII (\<^verbatim>\<open>[^\w\s]\<close> or \<^verbatim>\<open>[^a-zA-Z0-9\s]+\<close>).
\<close>

definition IsSpace :: "char \<Rightarrow> bool" where
  "IsSpace c = (regex_space c \<or> c = CHR 0x0B)"

definition ToLower_char :: "char \<Rightarrow> char" where
  "ToLower_char c =
     (case map_of (zip ''ABCDEFGHIJKLMNOPQRSTUVWXYZ'' ''abcdefghijklmnopqrstuvwxyz'') c of
        None \<Rightarrow> c
      | Some l \<Rightarrow> l)"

definition ToLower :: "string \<Rightarrow> string" where
  "ToLower s = map ToLower_char s"

definition TrimSpace :: "string \<Rightarrow> string" where
  "TrimSpace s = rev (dropWhile IsSpace (rev (dropWhile IsSpace s)))"

text \<open>
  \<^verbatim>\<open>strings.Fields\<close>: the maximal runs of bytes that are not white space. The first
  argument is the field being read.
\<close>

fun fields_from :: "string \<Rightarrow> string \<Rightarrow> string list" where
  "fields_from w [] = (if w = [] then [] else [w])"
| "fields_from w (c # cs) =
     (if IsSpace c then (if w = [] then fields_from [] cs else w # fields_from [] cs)
      else fields_from (w @ [c]) cs)"

definition Fields :: "string \<Rightarrow> string list" where
  "Fields s = fields_from [] s"

fun Join :: "string list \<Rightarrow> string \<Rightarrow> string" where
  "Join [] sep = []"
| "Join [t] sep = t"
| "Join (t # ts) sep = t @ sep @ Join ts sep"

text \<open>\<^verbatim>\<open>strings.Index\<close>: the offset of the first occurrence, or -1.\<close>

fun strings_Index :: "string \<Rightarrow> string \<Rightarrow> int" where
  "strings_Index [] sub = (if sub = [] then 0 else -1)"
| "strings_Index (c # cs) sub =
     (if prefix sub (c # cs) then 0
      else (let r = strings_Index cs sub in if r = -1 then -1 else r + 1))"

fun Contains :: "string \<Rightarrow> string \<Rightarrow> bool" where
  "Contains [] sub = (sub = [])"
| "Contains (c # cs) sub = (prefix sub (c # cs) \<or> Contains cs sub)"

text \<open>
  \<^verbatim>\<open>strings.ReplaceAll\<close> for a nonempty \<^verbatim>\<open>old\<close> (the program passes literals only): the
  occurrences are replaced from the left, without overlap.
\<close>

fun ReplaceAll :: "string \<Rightarrow> string \<Rightarrow> string \<Rightarrow> string" where
  "ReplaceAll [] old new = []"
| "ReplaceAll (c # cs) old new =
     (if old \<noteq> [] \<and> prefix old (c # cs) then new @ ReplaceAll (drop (length old - 1) cs) old new
      else c # ReplaceAll cs old new)"

text \<open>
  The width in bytes of the first rune, as \<^verbatim>\<open>utf8.DecodeRuneInString\<close> reads it: a
  well-formed UTF-8 sequence of 1 to 4 bytes, or 1 for a byte that starts none (the rune
  is then \<^verbatim>\<open>U+FFFD\<close>).
\<close>

definition byte_in :: "nat \<Rightarrow> nat \<Rightarrow> char \<Rightarrow> bool" where
  "byte_in lo hi c = (lo \<le> (of_char c :: nat) \<and> (of_char c :: nat) \<le> hi)"

fun rune_width :: "string \<Rightarrow> nat" where
  "rune_width [] = 0"
| "rune_width [b0] = 1"
| "rune_width [b0, b1] = (if byte_in 0xC2 0xDF b0 \<and> byte_in 0x80 0xBF b1 then 2 else 1)"
| "rune_width (b0 # b1 # b2 # bs) =
     (if byte_in 0xC2 0xDF b0 \<and> byte_in 0x80 0xBF b1 then 2
      else if (byte_in 0xE0 0xE0 b0 \<and> byte_in 0xA0 0xBF b1 \<or>
               byte_in 0xE1 0xEC b0 \<and> byte_in 0x80 0xBF b1 \<or>
               byte_in 0xED 0xED b0 \<and> byte_in 0x80 0x9F b1 \<or>
               byte_in 0xEE 0xEF b0 \<and> byte_in 0x80 0xBF b1) \<and> byte_in 0x80 0xBF b2 then 3
      else if (byte_in 0xF0 0xF0 b0 \<and> byte_in 0x90 0xBF b1 \<or>
               byte_in 0xF1 0xF3 b0 \<and> byte_in 0x80 0xBF b1 \<or>
               byte_in 0xF4 0xF4 b0 \<and> byte_in 0x80 0x8F b1) \<and> byte_in 0x80 0xBF b2 \<and>
              (case bs of [] \<Rightarrow> False | b3 # _ \<Rightarrow> byte_in 0x80 0xBF b3) then 4
      else 1)"

section \<open>Regular expressions\<close>

text \<open>
  A pattern is modelled by its matcher: given the byte before the position (if any) and
  the text from the position on, the length of the leftmost-first match that starts at
  the position, if there is one. None of the program's patterns matches the empty
  string. \<^verbatim>\<open>ReplaceAllString\<close> replaces the matches from the left, without overlap, by
  the expansion of the template for the matched text, and copies the bytes between them.
\<close>

type_synonym matcher = "char option \<Rightarrow> string \<Rightarrow> nat option"

fun ReplaceAllString :: "matcher \<Rightarrow> (string \<Rightarrow> string) \<Rightarrow> char option \<Rightarrow> string \<Rightarrow> string" where
  "ReplaceAllString m repl prev [] = []"
| "ReplaceAllString m repl prev (c # cs) =
     (case m prev (c # cs) of
        Some (Suc n) \<Rightarrow>
          repl (c # take n cs) @ ReplaceAllString m repl (Some (last (c # take n cs))) (drop n cs)
      | _ \<Rightarrow> c # ReplaceAllString m repl (Some c) cs)"

text \<open>A replacement template without \<^verbatim>\<open>$\<close> is the same text for every match.\<close>

definition literally :: "string \<Rightarrow> string \<Rightarrow> string" where
  "literally repl matched = repl"

text \<open>\<^verbatim>\<open>[^\w\s]\<close>: one rune that is neither a word byte nor white space.\<close>

definition punctuation :: matcher where
  "punctuation prev s =
     (case s of [] \<Rightarrow> None
      | c # _ \<Rightarrow> if is_word c \<or> regex_space c then None else Some (rune_width s))"

text \<open>
  \<^verbatim>\<open>\b\<close> is a word boundary: of the byte before the position and the byte after it, just
  one is a word byte (the ends of the text count as no word byte).
\<close>

definition after_word :: "char option \<Rightarrow> bool" where
  "after_word prev = (case prev of None \<Rightarrow> False | Some p \<Rightarrow> is_word p)"

definition before_word :: "string \<Rightarrow> bool" where
  "before_word s = (case s of [] \<Rightarrow> False | d # _ \<Rightarrow> is_word d)"

text \<open>
  \<^verbatim>\<open>\b\d+\b\<close>: a word boundary, that is no word byte before the position; the longest run
  of digits; a word boundary again, that is no word byte after the run. A shorter run
  of digits ends before a digit, where there is no boundary.
\<close>

definition numbers :: matcher where
  "numbers prev s =
     (let run = takeWhile is_digit s; rest = dropWhile is_digit s
      in if run \<noteq> [] \<and> \<not> after_word prev \<and> \<not> before_word rest
         then Some (length run) else None)"

section \<open>The text processor\<close>

definition stopWords :: "string list" where
  "stopWords =
    [''yang'', ''dan'', ''atau'', ''tetapi'', ''namun'',
     ''melainkan'', ''sedangkan'', ''sebaliknya'',
     ''di'', ''ke'', ''dari'', ''dalam'', ''kepada'',
     ''pada'', ''oleh'', ''untuk'', ''bagi'', ''tentang'',
     ''menurut'', ''seperti'', ''sebagai'',
     ''ini'', ''itu'', ''tersebut'', ''berikut'',
     ''saya'', ''anda'', ''dia'', ''mereka'', ''kita'',
     ''kami'', ''kamu'', ''ia'', ''beliau'',
     ''akan'', ''sudah'', ''telah'', ''sedang'', ''masih'',
     ''hendak'', ''bisa'', ''dapat'', ''bukan'', ''jangan'',
     ''sangat'', ''hanya'', ''juga'', ''saja'', ''lagi'',
     ''sekarang'', ''yakni'', ''yaitu'',
     ''apa'', ''siapa'', ''dimana'', ''kapan'', ''kenapa'',
     ''bagaimana'', ''mengapa'',
     ''satu'', ''dua'', ''tiga'', ''empat'', ''lima'',
     ''enam'', ''tujuh'', ''delapan'', ''sembilan'', ''sepuluh'',
     ''pertama'', ''kedua'', ''ketiga'', ''keempat'', ''kelima'']"

definition removePunctuationsAndNumbers :: "string \<Rightarrow> string" where
  "removePunctuationsAndNumbers text =
     (let text1 = ReplaceAllString punctuation (literally '' '') None text;
          text2 = ReplaceAllString numbers (literally '' '') None text1
      in TrimSpace text2)"

definition removeStopwords :: "string \<Rightarrow> string list" where
  "removeStopwords text = filter (\<lambda>word. ToLower word \<notin> set stopWords) (Fields text)"

definition caseFolding :: "string list \<Rightarrow> string list" where
  "caseFolding tokens = map ToLower tokens"

definition tokenize :: "string \<Rightarrow> string list" where
  "tokenize text = Fields text"

definition ProcessText :: "string \<Rightarrow> string list" where
  "ProcessText text =
     (let cleaned = removePunctuationsAndNumbers text;
          withoutStopwords = removeStopwords cleaned;
          folded = caseFolding withoutStopwords;
          stemmed = stemming folded
      in stemmed)"

subsection \<open>The first step as the specification words it\<close>

text \<open>
  The characters of a text are its runes, each with the bytes that encode it; a byte that
  begins no well-formed sequence is a character of its own.
\<close>

fun runes :: "string \<Rightarrow> string list" where
  "runes [] = []"
| "runes (c # cs) =
     (c # take (rune_width (c # cs) - 1) cs) # runes (drop (rune_width (c # cs) - 1) cs)"

text \<open>
  The characters that stay: the letters and digits of ASCII, the underscore and the white
  space of the class \<^verbatim>\<open>\s\<close>. Every other character is replaced by one space.
\<close>

definition kept_character :: "string \<Rightarrow> bool" where
  "kept_character r =
     (case r of
        [] \<Rightarrow> False
      | c # cs \<Rightarrow> cs = [] \<and> (is_letter c \<or> is_digit c \<or> c = CHR ''_'' \<or> regex_space c))"

definition replace_characters :: "string \<Rightarrow> string" where
  "replace_characters text =
     concat (map (\<lambda>r. if kept_character r then r else '' '') (runes text))"

text \<open>
  A token is a maximal run of letters, digits and underscores; a standalone numeric token
  is a token of digits only, and is replaced by one space. The first argument of
  \<open>replace_tokens_from\<close> is the token being read.
\<close>

definition numeric_token :: "string \<Rightarrow> bool" where
  "numeric_token w = (w \<noteq> [] \<and> list_all is_digit w)"

fun replace_tokens_from :: "string \<Rightarrow> string \<Rightarrow> string" where
  "replace_tokens_from w [] = (if numeric_token w then '' '' else w)"
| "replace_tokens_from w (c # cs) =
     (if is_word c then replace_tokens_from (w @ [c]) cs
      else (if numeric_token w then '' '' else w) @ c # replace_tokens_from [] cs)"

definition replace_numeric_tokens :: "string \<Rightarrow> string" where
  "replace_numeric_tokens text = replace_tokens_from [] text"

section \<open>The inverted index\<close>

text \<open>
  Document numbers, frequencies and positions are Go \<^verbatim>\<open>int\<close>s that count from 0 up to the
  number of documents or tokens in memory; they are natural numbers here.
\<close>

record Article =
  Title :: string
  Content :: string
  URL :: string

record Posting =
  DocID :: nat
  Frequency :: nat
  Positions :: "nat list"

record PostingList =
  DocFrequency :: nat
  Postings :: "nat \<rightharpoonup> Posting"

record InvertedIndex =
  Index :: "string \<rightharpoonup> PostingList"

definition NewInvertedIndex :: InvertedIndex where
  "NewInvertedIndex = \<lparr>Index = Map.empty\<rparr>"

text \<open>The body of the inner loop of \<^verbatim>\<open>buildInvertedIndex\<close>, for one token at one position.\<close>

definition add_token :: "nat \<Rightarrow> nat \<Rightarrow> string \<Rightarrow> InvertedIndex \<Rightarrow> InvertedIndex" where
  "add_token docID pos token idx =
     (let pl = (case Index idx token of
                  None \<Rightarrow> \<lparr>DocFrequency = 0, Postings = Map.empty\<rparr>
                | Some l \<Rightarrow> l);
          pl1 = (case Postings pl docID of
                   None \<Rightarrow>
                     pl\<lparr>Postings := (Postings pl)(docID \<mapsto> \<lparr>DocID = docID, Frequency = 0, Positions = []\<rparr>),
                        DocFrequency := DocFrequency pl + 1\<rparr>
                 | Some _ \<Rightarrow> pl);
          posting = (case Postings pl1 docID of
                       None \<Rightarrow> \<lparr>DocID = docID, Frequency = 0, Positions = []\<rparr>
                     | Some q \<Rightarrow> q);
          posting1 = posting\<lparr>Frequency := Frequency posting + 1,
                             Positions := Positions posting @ [pos]\<rparr>
      in idx\<lparr>Index := (Index idx)(token \<mapsto> pl1\<lparr>Postings := (Postings pl1)(docID \<mapsto> posting1)\<rparr>)\<rparr>)"

fun index_tokens :: "nat \<Rightarrow> nat \<Rightarrow> string list \<Rightarrow> InvertedIndex \<Rightarrow> InvertedIndex" where
  "index_tokens docID pos [] idx = idx"
| "index_tokens docID pos (token # tokens) idx =
     index_tokens docID (Suc pos) tokens (add_token docID pos token idx)"

fun index_articles :: "nat \<Rightarrow> Article list \<Rightarrow> InvertedIndex \<Rightarrow> InvertedIndex" where
  "index_articles docID [] idx = idx"
| "index_articles docID (article # articles) idx =
     index_articles (Suc docID) articles
       (index_tokens docID 0 (ProcessText (Article.Title article @ '' '' @ Article.Content article)) idx)"

definition buildInvertedIndex :: "Article list \<Rightarrow> InvertedIndex" where
  "buildInvertedIndex articles = index_articles 0 articles NewInvertedIndex"

section \<open>Weights and similarity\<close>

text \<open>
  In this section a \<^verbatim>\<open>float64\<close> is a real number and the arithmetic is exact: the rounding,
  the infinities and the NaN of IEEE 754 are left out (\<^verbatim>\<open>math.Log\<close> is \<^const>\<open>ln\<close>,
  \<^verbatim>\<open>math.Sqrt\<close> is \<^const>\<open>sqrt\<close>), and a sum over a Go map is a sum over the map's keys.
  This is the model for what does not depend on the rounding: which formula gives a
  weight, which scores are positive, how the results are ordered. The next section has
  the same functions with the rounding of every operation.
\<close>

type_synonym TFIDF = "string \<rightharpoonup> (nat \<rightharpoonup> real)"

definition calculateTFIDF :: "InvertedIndex \<Rightarrow> nat \<Rightarrow> TFIDF" where
  "calculateTFIDF invertedIndex totalDocs =
     (\<lambda>term. case Index invertedIndex term of
        None \<Rightarrow> None
      | Some postingList \<Rightarrow>
          (let idf = ln (real totalDocs / real (DocFrequency postingList))
           in Some (\<lambda>docID. case Postings postingList docID of
                None \<Rightarrow> None
              | Some posting \<Rightarrow> (let tf = real (Frequency posting) in Some (tf * idf)))))"

definition weight_of :: "(string \<rightharpoonup> real) \<Rightarrow> string \<Rightarrow> real" where
  "weight_of vector term = (case vector term of None \<Rightarrow> 0 | Some weight \<Rightarrow> weight)"

definition normalizeVector :: "(string \<rightharpoonup> real) \<Rightarrow> (string \<rightharpoonup> real)" where
  "normalizeVector vector =
     (let magnitude = sqrt (\<Sum>term \<in> dom vector. weight_of vector term * weight_of vector term)
      in if magnitude > 0
         then (\<lambda>term. case vector term of None \<Rightarrow> None | Some weight \<Rightarrow> Some (weight / magnitude))
         else Map.empty)"

text \<open>The document's vector: the terms that have a score for the document.\<close>

definition docVector :: "TFIDF \<Rightarrow> nat \<Rightarrow> (string \<rightharpoonup> real)" where
  "docVector tfidfScores docID =
     (\<lambda>term. case tfidfScores term of None \<Rightarrow> None | Some scores \<Rightarrow> scores docID)"

definition cosineSimilarityWithTFIDF :: "(string \<rightharpoonup> real) \<Rightarrow> TFIDF \<Rightarrow> nat \<Rightarrow> real" where
  "cosineSimilarityWithTFIDF queryVector tfidfScores docID =
     (let normalizedQuery = normalizeVector queryVector;
          normalizedDoc = normalizeVector (docVector tfidfScores docID)
      in \<Sum>term \<in> dom normalizedQuery.
           (case normalizedDoc term of
              None \<Rightarrow> 0
            | Some docWeight \<Rightarrow> weight_of normalizedQuery term * docWeight))"

definition jaccardSimilarityWithTFIDF :: "(string \<rightharpoonup> real) \<Rightarrow> TFIDF \<Rightarrow> nat \<Rightarrow> real" where
  "jaccardSimilarityWithTFIDF queryVector tfidfScores docID =
     (let querySet = dom queryVector;
          docSet = dom (docVector tfidfScores docID);
          intersection = card {term \<in> querySet. term \<in> docSet};
          union = card querySet + card docSet - intersection
      in if union = 0 then 0 else real intersection / real union)"

text \<open>The query vector of \<^verbatim>\<open>searching\<close>: \<^verbatim>\<open>queryVector[token]++\<close> for every token.\<close>

fun count_tokens :: "string list \<Rightarrow> (string \<rightharpoonup> real) \<Rightarrow> (string \<rightharpoonup> real)" where
  "count_tokens [] queryVector = queryVector"
| "count_tokens (token # tokens) queryVector =
     count_tokens tokens (queryVector(token \<mapsto> weight_of queryVector token + 1))"

section \<open>Weights and similarity in binary64 arithmetic\<close>











section \<open>Content preview\<close>

subsection \<open>The patterns of \<^verbatim>\<open>cleanContent\<close>\<close>

text \<open>
  \<^verbatim>\<open>\S\<close> is every rune but the five of \<^verbatim>\<open>\s\<close>. A byte outside ASCII always belongs to a
  rune that \<^verbatim>\<open>\S\<close> matches, so a run of \<^verbatim>\<open>\S\<close> is a run of bytes that are not in \<^verbatim>\<open>\s\<close>.
\<close>

definition nonspace :: "char \<Rightarrow> bool" where
  "nonspace c = (\<not> regex_space c)"

text \<open>
  \<^verbatim>\<open>https?://\S+\<close>, \<^verbatim>\<open>www\.\S+\<close> and \<^verbatim>\<open>@\S+\<close>: one of the literal heads, then the run of
  \<^verbatim>\<open>\S\<close> after it, which must not be empty.
\<close>

definition head_nonspaces :: "string list \<Rightarrow> matcher" where
  "head_nonspaces heads prev s =
     (case find (\<lambda>h. prefix h s) heads of
        None \<Rightarrow> None
      | Some h \<Rightarrow>
          (let run = takeWhile nonspace (drop (length h) s)
           in if run = [] then None else Some (length h + length run)))"

text \<open>
  \<^verbatim>\<open>\S+\.(com|net|org)\S*\<close>: the greedy \<^verbatim>\<open>\S+\<close> gives back bytes until the domain ending
  follows, and \<^verbatim>\<open>\S*\<close> runs to the end of the run; so the match is the whole run of \<^verbatim>\<open>\S\<close>,
  when an ending stands in it after at least one byte.
\<close>

definition url_domain :: matcher where
  "url_domain prev s =
     (let run = takeWhile nonspace s
      in if Contains (drop 1 run) ''.com'' \<or> Contains (drop 1 run) ''.net'' \<or>
            Contains (drop 1 run) ''.org''
         then Some (length run) else None)"

text \<open>
  \<^verbatim>\<open>\S+@\S+\.\S+\<close>: the whole run of \<^verbatim>\<open>\S\<close>, when it has an \<^verbatim>\<open>@\<close> after at least one byte,
  then at least one byte, a dot and at least one more byte. The first such \<^verbatim>\<open>@\<close> leaves
  the most room for the dot.
\<close>

definition email :: matcher where
  "email prev s =
     (let run = takeWhile nonspace s;
          after_at = drop 1 (dropWhile (\<lambda>c. c \<noteq> CHR ''@'') (drop 1 run))
      in if CHR ''.'' \<in> set (butlast (drop 1 after_at)) then Some (length run) else None)"

text \<open>\<^verbatim>\<open>[^a-zA-Z0-9\s]+\<close>: the run of bytes that are no letters, digits or white space.\<close>

definition special_chars :: matcher where
  "special_chars prev s =
     (let run = takeWhile (\<lambda>c. \<not> (is_letter c \<or> is_digit c \<or> regex_space c)) s
      in if run = [] then None else Some (length run))"

text \<open>\<^verbatim>\<open>\s+\d+\s+\<close>: white space, digits and white space, each run as long as it is.\<close>

definition spaced_number :: matcher where
  "spaced_number prev s =
     (let sp1 = takeWhile regex_space s; s1 = dropWhile regex_space s;
          ds = takeWhile is_digit s1; s2 = dropWhile is_digit s1;
          sp2 = takeWhile regex_space s2
      in if sp1 \<noteq> [] \<and> ds \<noteq> [] \<and> sp2 \<noteq> []
         then Some (length sp1 + length ds + length sp2) else None)"

text \<open>\<^verbatim>\<open>\s+\<close>.\<close>

definition whitespace :: matcher where
  "whitespace prev s =
     (let run = takeWhile regex_space s in if run = [] then None else Some (length run))"

text \<open>\<^verbatim>\<open>\s*[.,!?;:]\s*\<close>.\<close>

definition spaced_punctuation :: matcher where
  "spaced_punctuation prev s =
     (let sp1 = takeWhile regex_space s
      in case dropWhile regex_space s of
           [] \<Rightarrow> None
         | c # s1 \<Rightarrow>
             if c \<in> set ''.,!?;:'' then Some (length sp1 + 1 + length (takeWhile regex_space s1))
             else None)"

subsection \<open>\<^verbatim>\<open>cleanContent\<close>\<close>

definition unwantedTexts :: "string list" where
  "unwantedTexts =
    [''Baca juga:'', ''Baca Juga:'',
     ''Simak breaking news'', ''Google News'',
     ''Terus ikuti'', ''Lebih banyak informasi'',
     ''Follow'', ''Instagram'', ''Twitter'', ''Facebook'',
     ''Bagikan:'', ''Share:'', ''Read more'']"

definition urlPatterns :: "matcher list" where
  "urlPatterns = [head_nonspaces [''https://'', ''http://''], head_nonspaces [''www.''], url_domain]"

text \<open>The loop that drops a word equal to the word before it.\<close>

fun unique_words :: "string \<Rightarrow> string list \<Rightarrow> string list" where
  "unique_words prev [] = []"
| "unique_words prev (word # words) =
     (if word \<noteq> prev then word # unique_words word words else unique_words prev words)"

definition cleanContent :: "string \<Rightarrow> string" where
  "cleanContent content =
     (let c1 = foldl (\<lambda>c text. ReplaceAll c text []) content unwantedTexts;
          c2 = foldl (\<lambda>c pattern. ReplaceAllString pattern (literally []) None c) c1 urlPatterns;
          c3 = ReplaceAllString email (literally []) None c2;
          c4 = ReplaceAllString (head_nonspaces [''@'']) (literally []) None c3;
          c5 = ReplaceAllString special_chars (literally '' '') None c4;
          c6 = ReplaceAllString spaced_number (literally '' '') None c5;
          c7 = ReplaceAllString whitespace (literally '' '') None c6;
          c8 = TrimSpace c7;
          c9 = ReplaceAllString spaced_punctuation (literally '' '') None c8;
          words = Fields c9;
          uniqueWords = unique_words [] words;
          c10 = Join uniqueWords '' '';
          c11 = TrimSpace c10
      in ReplaceAllString whitespace (literally '' '') None c11)"

subsection \<open>\<^verbatim>\<open>getContentPreview\<close>\<close>

text \<open>
  A slice expression \<^verbatim>\<open>s[lo:hi]\<close> panics unless \<^verbatim>\<open>0 <= lo <= hi <= len(s)\<close>.
\<close>

datatype panic = SliceOutOfRange

definition slice :: "string \<Rightarrow> int \<Rightarrow> int \<Rightarrow> panic + string" where
  "slice s lo hi =
     (if 0 \<le> lo \<and> lo \<le> hi \<and> hi \<le> int (length s)
      then Inr (take (nat (hi - lo)) (drop (nat lo) s))
      else Inl SliceOutOfRange)"

text \<open>
  The loop \<^verbatim>\<open>for i := 0; i < wordCount && i < len(words); i++\<close>: the first argument is
  \<^verbatim>\<open>wordCount - i\<close>, the second \<^verbatim>\<open>words[i:]\<close>.
\<close>

fun wordPos_loop :: "nat \<Rightarrow> string list \<Rightarrow> int \<Rightarrow> int" where
  "wordPos_loop 0 words wordPos = wordPos"
| "wordPos_loop (Suc n) [] wordPos = wordPos"
| "wordPos_loop (Suc n) (w # words) wordPos = wordPos_loop n words (wordPos + int (length w) + 1)"

text \<open>The bounds \<^verbatim>\<open>start\<close> and \<^verbatim>\<open>end\<close> of the window, from the words before the match.\<close>

definition preview_window :: "string \<Rightarrow> nat \<Rightarrow> int \<Rightarrow> int \<times> int" where
  "preview_window cleanedContent wordCount maxLength =
     (let words = Fields cleanedContent;
          wordPos = wordPos_loop wordCount words 0;
          start = (if wordPos - 60 < 0 then 0 else wordPos - 60);
          end' = (if start + maxLength > int (length cleanedContent)
                 then int (length cleanedContent) else start + maxLength)
      in (start, end'))"

definition getContentPreview :: "string \<Rightarrow> string \<Rightarrow> int \<Rightarrow> panic + string" where
  "getContentPreview content query maxLength0 =
     (let cleanedContent = cleanContent content;
          maxLength = 160
      in if int (length cleanedContent) \<le> maxLength then Inr cleanedContent
         else
           (let processedQueryTokens = ProcessText query;
                processedContentTokens = ProcessText cleanedContent;
                queryText = Join processedQueryTokens '' '';
                contentText = Join processedContentTokens '' '';
                pos = strings_Index (ToLower contentText) (ToLower queryText)
            in if pos = -1
               then (case slice cleanedContent 0 maxLength of
                       Inl e \<Rightarrow> Inl e
                     | Inr r \<Rightarrow> Inr (r @ ''...''))
               else
                 (case slice contentText 0 pos of
                    Inl e \<Rightarrow> Inl e
                  | Inr front \<Rightarrow>
                      (let wordCount = length (Fields front);
                           (start, end') = preview_window cleanedContent wordCount maxLength
                       in case slice cleanedContent start end' of
                            Inl e \<Rightarrow> Inl e
                          | Inr result \<Rightarrow>
                              Inr ((if start > 0 then ''...'' else []) @ result @
                                   (if end' < int (length cleanedContent) then ''...'' else []))))))"

subsection \<open>\<^verbatim>\<open>highlightText\<close>\<close>

text \<open>
  The pattern built for a token, \<^verbatim>\<open>(?i)\b[\w\<close>...\<^verbatim>\<open>]*token[\w\<close>...\<^verbatim>\<open>]*\b\<close> (the class
  also holds the Cyrillic letters), on ASCII text and for a token of word bytes, which is
  what \<^verbatim>\<open>ProcessText\<close> and \<^verbatim>\<open>getContentPreview\<close> give: the whole run of word bytes at a
  word boundary, when the token stands in it, whatever the case of the letters.
\<close>

definition highlight_pattern :: "string \<Rightarrow> matcher" where
  "highlight_pattern token prev s =
     (let run = takeWhile is_word s
      in if \<not> after_word prev \<and> run \<noteq> [] \<and> Contains (ToLower run) (ToLower token)
         then Some (length run) else None)"

fun highlight_tokens :: "string list \<Rightarrow> string \<Rightarrow> string" where
  "highlight_tokens [] highlighted = highlighted"
| "highlight_tokens (token # tokens) highlighted =
     (if length token < 2 then highlight_tokens tokens highlighted
      else highlight_tokens tokens
             (ReplaceAllString (highlight_pattern token) (\<lambda>m. ''<em>'' @ m @ ''</em>'') None
                highlighted))"

definition highlightText :: "string \<Rightarrow> string \<Rightarrow> string" where
  "highlightText text query =
     (if query = [] then text else highlight_tokens (ProcessText query) text)"

section \<open>Searching\<close>

definition getFaviconPath :: "string \<Rightarrow> string" where
  "getFaviconPath url =
     (if HasPrefix url ''https://artikel.rumah123.com/'' then ''/static/rumah123.png''
      else if HasPrefix url ''https://propertiterkini.com/'' then ''/static/propertiterkini.png''
      else if HasPrefix url ''https://propertyandthecity.com/''
      then ''/static/propertyandthecity.png''
      else ''/static/favicon.svg'')"

record SearchResult =
  Title :: string
  Content :: string
  URL :: string
  Score :: real
  HighlightedContent :: string
  Favicon :: string

text \<open>
  \<^verbatim>\<open>sort.Slice\<close> sorts by the given \<^verbatim>\<open>less\<close> and promises no order among elements that
  \<^verbatim>\<open>less\<close> does not separate. The model is the insertion sort that it runs on a short
  slice: an element goes before the first element that it is \<^verbatim>\<open>less\<close> than.
\<close>

fun insert_less :: "('a \<Rightarrow> 'a \<Rightarrow> bool) \<Rightarrow> 'a \<Rightarrow> 'a list \<Rightarrow> 'a list" where
  "insert_less lessf x [] = [x]"
| "insert_less lessf x (y # ys) = (if lessf x y then x # y # ys else y # insert_less lessf x ys)"

definition sort_Slice :: "('a \<Rightarrow> 'a \<Rightarrow> bool) \<Rightarrow> 'a list \<Rightarrow> 'a list" where
  "sort_Slice lessf xs = foldl (\<lambda>acc x. insert_less lessf x acc) [] xs"

text \<open>The \<^verbatim>\<open>switch\<close> on the method: every name but \<^verbatim>\<open>jaccard\<close> selects the cosine.\<close>

definition method_score :: "string \<Rightarrow> (string \<rightharpoonup> real) \<Rightarrow> TFIDF \<Rightarrow> nat \<Rightarrow> real" where
  "method_score method queryVector tfidfScores i =
     (if method = ''cosine'' then cosineSimilarityWithTFIDF queryVector tfidfScores i
      else if method = ''jaccard'' then jaccardSimilarityWithTFIDF queryVector tfidfScores i
      else cosineSimilarityWithTFIDF queryVector tfidfScores i)"

text \<open>The loop over the articles; \<^verbatim>\<open>i\<close> is the number of the article at the head.\<close>

fun score_articles ::
  "string \<Rightarrow> string \<Rightarrow> (string \<rightharpoonup> real) \<Rightarrow> TFIDF \<Rightarrow> nat \<Rightarrow> Article list \<Rightarrow> panic + SearchResult list"
where
  "score_articles query method queryVector tfidfScores i [] = Inr []"
| "score_articles query method queryVector tfidfScores i (article # articles) =
     (let score = method_score method queryVector tfidfScores i
      in if score > 0
         then
           (case getContentPreview (Article.Content article) query 160 of
              Inl e \<Rightarrow> Inl e
            | Inr contentPreview \<Rightarrow>
                (let highlightedContent = highlightText contentPreview query;
                     result = \<lparr>Title = Article.Title article, Content = contentPreview,
                               URL = Article.URL article, Score = score,
                               HighlightedContent = highlightedContent,
                               Favicon = getFaviconPath (Article.URL article)\<rparr>
                 in case score_articles query method queryVector tfidfScores (Suc i) articles of
                      Inl e \<Rightarrow> Inl e
                    | Inr results \<Rightarrow> Inr (result # results)))
         else score_articles query method queryVector tfidfScores (Suc i) articles)"

text \<open>
  \<^verbatim>\<open>loadArticles\<close> reads a file; its result is an argument of the model: \<^verbatim>\<open>None\<close> when
  reading or parsing failed, and \<^verbatim>\<open>searching\<close> then returns no result.
\<close>

definition searching :: "Article list option \<Rightarrow> string \<Rightarrow> string \<Rightarrow> panic + SearchResult list" where
  "searching loaded query method =
     (case loaded of
        None \<Rightarrow> Inr []
      | Some articles \<Rightarrow>
          (let invertedIndex = buildInvertedIndex articles;
               tfidfScores = calculateTFIDF invertedIndex (length articles);
               queryTokens = ProcessText query;
               queryVector = count_tokens queryTokens Map.empty
           in case score_articles query method queryVector tfidfScores 0 articles of
                Inl e \<Rightarrow> Inl e
              | Inr results \<Rightarrow> Inr (sort_Slice (\<lambda>a b. Score a > Score b) results)))"

section \<open>Example data\<close>

definition example_content :: string where
  "example_content = ''Harga rumah di kota besar naik tajam tahun ini karena permintaan pasar properti terus meningkat, sementara pasokan lahan baru sangat terbatas sehingga pembeli harus menunggu lebih lama.''"

definition example_cleaned :: string where
  "example_cleaned = ''Harga rumah di kota besar naik tajam tahun ini karena permintaan pasar properti terus meningkat sementara pasokan lahan baru sangat terbatas sehingga pembeli harus menunggu lebih lama''"

definition example_terms :: "string list" where
  "example_terms =
     [''harga'', ''rumah'', ''kota'', ''besar'', ''naik'', ''tajam'', ''tahun'',
      ''karena'', ''rminta'', ''pasar'', ''propert'', ''terus'', ''ningkat'',
      ''mentara'', ''paso'', ''lah'', ''baru'', ''rbatas'', ''hingga'',
      ''mbel'', ''harus'', ''nunggu'', ''lebih'', ''lama'']"

text \<open>A cleaned content of 161 bytes: 32 words, the query \<^verbatim>\<open>zz\<close> stands in the last one.\<close>

definition example_wide :: string where
  "example_wide = ''kaob kbob kcob kdob keob kfob kgob khob kiob kjob kkob klob kmob knob koob kpob kqob krob ksob ktob kuob kvob kwob kxob kyob kzob kaoc kboc kcoc kdoc keoc kdoczz''"

text \<open>
  A text with an en dash (three bytes), an e with acute accent (two bytes) and a byte that
  is no UTF-8.
\<close>

definition example_dash :: string where
  "example_dash =
     ''Rumah_baru '' @ [CHR 0xE2, CHR 0x80, CHR 0x93] @ '' 2 lantai, harga 1,5 juta; x9 9x '' @
     [CHR 0xC3, CHR 0xA9, CHR 0xFF] @ ''7 ''"

section \<open>Invariants of the index\<close>

text \<open>
  While document \<open>D\<close> is read up to position \<open>pos\<close>: a posting belongs to a document up
  to \<open>D\<close>, carries its document number, counts its positions, has at least one and lists
  them in ascending order, and the positions of document \<open>D\<close> are below \<open>pos\<close>.
\<close>

definition posting_ok :: "nat \<Rightarrow> nat \<Rightarrow> nat \<Rightarrow> Posting \<Rightarrow> bool" where
  "posting_ok D pos d p =
     (d \<le> D \<and> DocID p = d \<and> Frequency p = length (Positions p) \<and>
      Positions p \<noteq> [] \<and> sorted_wrt (<) (Positions p) \<and>
      (d = D \<longrightarrow> (\<forall>x \<in> set (Positions p). x < pos)))"

definition list_ok :: "nat \<Rightarrow> nat \<Rightarrow> PostingList \<Rightarrow> bool" where
  "list_ok D pos pl =
     (finite (dom (Postings pl)) \<and> DocFrequency pl = card (dom (Postings pl)) \<and>
      (\<forall>d p. Postings pl d = Some p \<longrightarrow> posting_ok D pos d p))"

definition index_inv :: "nat \<Rightarrow> nat \<Rightarrow> InvertedIndex \<Rightarrow> bool" where
  "index_inv D pos idx =
     (finite (dom (Index idx)) \<and> (\<forall>t pl. Index idx t = Some pl \<longrightarrow> list_ok D pos pl))"

text \<open>The term has a posting for the document.\<close>

definition has_posting :: "InvertedIndex \<Rightarrow> string \<Rightarrow> nat \<Rightarrow> bool" where
  "has_posting idx t d =
     (case Index idx t of None \<Rightarrow> False | Some pl \<Rightarrow> Postings pl d \<noteq> None)"

text \<open>The text of an article that is indexed.\<close>

definition article_text :: "Article \<Rightarrow> string" where
  "article_text article = Article.Title article @ '' '' @ Article.Content article"

definition example_articles :: "Article list" where
  "example_articles =
     [\<lparr>Article.Title = ''Harga Rumah Naik'', Article.Content = ''Harga rumah di kota naik tajam tahun ini'',
       Article.URL = ''u1''\<rparr>,
      \<lparr>Article.Title = ''Pasar Properti'', Article.Content = ''Harga tanah turun'', Article.URL = ''u2''\<rparr>,
      \<lparr>Article.Title = ''Resep Kue'', Article.Content = ''Gula dan tepung'', Article.URL = ''u3''\<rparr>]"


section \<open>Notions for the similarity scores\<close>

text \<open>The Euclidean norm that \<^verbatim>\<open>normalizeVector\<close> computes in its first loop.\<close>

definition magnitude :: "(string \<rightharpoonup> real) \<Rightarrow> real" where
  "magnitude vector = sqrt (\<Sum>term \<in> dom vector. weight_of vector term * weight_of vector term)"

section \<open>Properties of the stemmer\<close>

lemma stem_suffix_loop_find:
  "stem_suffix_loop xs word =
     (case find (\<lambda>x. suffix x word) xs of
        None \<Rightarrow> word
      | Some x \<Rightarrow> take (length word - length x) word)"
  by (induction xs) (simp_all add: HasSuffix_def TrimSuffix_def)

text \<open>
  When no prefix of the list that the word starts with leaves 4 bytes, the second loop
  runs to its end and leaves the word as it is.
\<close>

lemma stem_prefix_loop_none:
  "(\<And>p. p \<in> set ps \<Longrightarrow> prefix p word \<Longrightarrow> length word - length p < 4)
     \<Longrightarrow> stem_prefix_loop ps word = word"
proof (induction ps)
  case Nil
  then show ?case by simp
next
  case (Cons q qs)
  have rest: "stem_prefix_loop qs word = word"
    by (rule Cons.IH) (simp add: Cons.prems)
  have "prefix q word \<Longrightarrow> \<not> 4 \<le> length word - length q"
    using Cons.prems [of q] by simp
  with rest show ?case
    by (auto simp: HasPrefix_def TrimPrefix_def Let_def)
qed

text \<open>
  On a list whose prefixes come in order of length, the first prefix that matches decides:
  the later ones are no shorter, so they leave no more bytes than it does.
\<close>

lemma stem_prefix_loop_find:
  "sorted (map length ps) \<Longrightarrow>
   stem_prefix_loop ps word =
     (case find (\<lambda>p. prefix p word) ps of
        None \<Rightarrow> word
      | Some p \<Rightarrow> if length word - length p \<ge> 4 then drop (length p) word else word)"
proof (induction ps)
  case Nil
  then show ?case by simp
next
  case (Cons p ps)
  show ?case
  proof (cases "prefix p word")
    case False
    with Cons show ?thesis by (simp add: HasPrefix_def)
  next
    case True
    show ?thesis
    proof (cases "length word - length p \<ge> 4")
      case True
      with \<open>prefix p word\<close> show ?thesis
        by (simp add: HasPrefix_def TrimPrefix_def)
    next
      case False
      have "stem_prefix_loop ps word = word"
      proof (rule stem_prefix_loop_none)
        fix q assume "q \<in> set ps" "prefix q word"
        with Cons.prems have "length p \<le> length q" by auto
        with False show "length word - length q < 4" by arith
      qed
      with False \<open>prefix p word\<close> show ?thesis
        by (simp add: HasPrefix_def TrimPrefix_def)
    qed
  qed
qed

lemma sorted_prefixes: "sorted (map length prefixes)"
  by (simp add: prefixes_def)

text \<open>
  Claim C1. For every token the stemmer of the source behaves as the specification says:
  a token shorter than 4 bytes is returned unchanged; otherwise the first suffix of the
  fixed list that matches is stripped, then the first prefix of the fixed list that matches
  is stripped only if at least 4 bytes remain, and a final stem shorter than 3 bytes is
  discarded for the original token.
\<close>

theorem stem_as_specified: "stem word = stem_spec word"
  by (simp add: stem_def stem_spec_def strip_first_suffix_def strip_first_prefix_def
      stem_suffix_loop_find stem_prefix_loop_find [OF sorted_prefixes] Let_def)

theorem stem_as_specified_witness:
  "stem ''pendidikan'' = stem_spec ''pendidikan'' \<and> stem_spec ''pendidikan'' = ''ndidi''"
proof -
  have "stem_spec ''pendidikan'' = ''ndidi''" by code_simp
  with stem_as_specified [of "''pendidikan''"] show ?thesis by simp
qed

text \<open>
  The first suffix of the list wins, not the longest one: \<^verbatim>\<open>i\<close> stands before \<^verbatim>\<open>wati\<close>.
\<close>

lemma stem_first_suffix_not_longest: "stem ''wartawati'' = ''wartawat''"
  by code_simp

lemma stem_short: "length word < 4 \<Longrightarrow> stem word = word"
  by (simp add: stem_def)

lemma stem_cases: "stem word = word \<or> 3 \<le> length (stem word)"
  by (simp add: stem_def Let_def)

text \<open>
  Claim C10. For every nonempty token, \<^verbatim>\<open>stem\<close> returns a nonempty string that is the
  token itself or a string of at least 3 bytes; so stemming a sequence of nonempty tokens
  yields no empty term.
\<close>

theorem stem_nonempty:
  "(word \<noteq> [] \<longrightarrow> stem word \<noteq> [] \<and> (stem word = word \<or> 3 \<le> length (stem word))) \<and>
   ([] \<notin> set tokens \<longrightarrow> [] \<notin> set (stemming tokens))"
proof -
  have one: "stem w \<noteq> []" if "w \<noteq> []" for w
    using stem_cases [of w] that by auto
  have "[] \<notin> set (stemming tokens)" if "[] \<notin> set tokens"
  proof
    assume "[] \<in> set (stemming tokens)"
    then obtain t where "t \<in> set tokens" "stem t = []"
      by (auto simp: stemming_def)
    with that one [of t] show False by auto
  qed
  with one [of word] stem_cases [of word] show ?thesis by blast
qed

theorem stem_nonempty_witness:
  "''pendidikan'' \<noteq> [] \<and> stem ''pendidikan'' \<noteq> [] \<and>
   (stem ''pendidikan'' = ''pendidikan'' \<or> 3 \<le> length (stem ''pendidikan'')) \<and>
   [] \<notin> set [''rumah'', ''di''] \<and> [] \<notin> set (stemming [''rumah'', ''di''])"
  using stem_nonempty [of "''pendidikan''" "[''rumah'', ''di'']"] by simp

section \<open>Properties of the content preview\<close>

lemma fields_from_length:
  "sum_list (map (\<lambda>w. length w + 1) (fields_from w s)) \<le> length w + length s + 1"
proof (induction s arbitrary: w)
  case Nil
  then show ?case by simp
next
  case (Cons c cs)
  show ?case
  proof (cases "IsSpace c")
    case True
    with Cons [of "[]"] show ?thesis by simp
  next
    case False
    with Cons [of "w @ [c]"] show ?thesis by simp
  qed
qed

lemma Fields_length: "sum_list (map (\<lambda>w. length w + 1) (Fields s)) \<le> length s + 1"
  using fields_from_length [of "[]" s] by (simp add: Fields_def)

lemma wordPos_loop_bounds:
  "wordPos \<le> wordPos_loop n words wordPos \<and>
   wordPos_loop n words wordPos \<le> wordPos + int (sum_list (map (\<lambda>w. length w + 1) words))"
proof (induction n words wordPos rule: wordPos_loop.induct)
  case (1 words wordPos)
  then show ?case by simp
next
  case (2 n wordPos)
  then show ?case by simp
next
  case (3 n w words wordPos)
  then show ?case by simp
qed

lemma preview_window_bounds:
  assumes "0 \<le> maxLength"
  shows "case preview_window cleanedContent wordCount maxLength of
           (start, end') \<Rightarrow> 0 \<le> start \<and> start \<le> end' \<and> end' \<le> int (length cleanedContent)"
proof -
  have "wordPos_loop wordCount (Fields cleanedContent) 0 \<le> int (length cleanedContent) + 1"
    using wordPos_loop_bounds [of 0 wordCount "Fields cleanedContent"]
      Fields_length [of cleanedContent] by linarith
  with assms show ?thesis
    by (simp add: preview_window_def Let_def)
qed

lemma strings_Index_range:
  "strings_Index s sub = -1 \<or> (0 \<le> strings_Index s sub \<and> strings_Index s sub \<le> int (length s))"
  by (induction s) (auto simp: Let_def)

lemma length_ToLower: "length (ToLower s) = length s"
  by (simp add: ToLower_def)

lemma slice_ok: "0 \<le> lo \<Longrightarrow> lo \<le> hi \<Longrightarrow> hi \<le> int (length s) \<Longrightarrow> \<exists>r. slice s lo hi = Inr r"
  by (simp add: slice_def)

lemma getContentPreview_total: "\<exists>r. getContentPreview content query maxLength = Inr r"
proof -
  define cleaned where "cleaned = cleanContent content"
  define contentText where "contentText = Join (ProcessText cleaned) '' ''"
  define pos where "pos = strings_Index (ToLower contentText) (ToLower (Join (ProcessText query) '' ''))"
  show ?thesis
  proof (cases "int (length cleaned) \<le> 160")
    case True
    then show ?thesis by (simp add: getContentPreview_def cleaned_def)
  next
    case long: False
    show ?thesis
    proof (cases "pos = -1")
      case True
      from long obtain r where "slice cleaned 0 160 = Inr r"
        using slice_ok [of 0 160 cleaned] by auto
      with long True show ?thesis
        by (simp add: getContentPreview_def cleaned_def [symmetric] contentText_def [symmetric] pos_def [symmetric])
    next
      case False
      with strings_Index_range [of "ToLower contentText" "ToLower (Join (ProcessText query) '' '')"]
      have pos: "0 \<le> pos" "pos \<le> int (length contentText)"
        by (simp_all add: pos_def length_ToLower)
      then obtain front where front: "slice contentText 0 pos = Inr front"
        using slice_ok [of 0 pos contentText] by auto
      obtain start end' where w: "preview_window cleaned (length (Fields front)) 160 = (start, end')"
        by (cases "preview_window cleaned (length (Fields front)) 160")
      with preview_window_bounds [of 160 cleaned "length (Fields front)"]
      have "0 \<le> start" "start \<le> end'" "end' \<le> int (length cleaned)" by simp_all
      then obtain r where "slice cleaned start end' = Inr r"
        using slice_ok by blast
      with long False front w show ?thesis
        by (simp add: getContentPreview_def cleaned_def [symmetric] contentText_def [symmetric] pos_def [symmetric])
    qed
  qed
qed

text \<open>
  Claim C7. The result of \<^verbatim>\<open>getContentPreview\<close> does not depend on the \<^verbatim>\<open>maxLength\<close> that
  the caller passes (the function sets it to 160), and a cleaned content of at most 160
  bytes is returned as it is.
\<close>

theorem getContentPreview_ignores_maxLength:
  "getContentPreview content query m1 = getContentPreview content query m2 \<and>
   (length (cleanContent content) \<le> 160 \<longrightarrow>
      getContentPreview content query m1 = Inr (cleanContent content))"
  by (simp add: getContentPreview_def)

theorem getContentPreview_ignores_maxLength_witness:
  "getContentPreview ''Baca juga: https://example.com/x Harga rumah naik!!'' ''rumah'' 5 =
     getContentPreview ''Baca juga: https://example.com/x Harga rumah naik!!'' ''rumah'' 300 \<and>
   length (cleanContent ''Baca juga: https://example.com/x Harga rumah naik!!'') \<le> 160 \<and>
   getContentPreview ''Baca juga: https://example.com/x Harga rumah naik!!'' ''rumah'' 5 =
     Inr ''Harga rumah naik''"
proof -
  let ?c = "''Baca juga: https://example.com/x Harga rumah naik!!''"
  have c: "cleanContent ?c = ''Harga rumah naik''"
    by code_simp
  have short: "length (cleanContent ?c) \<le> 160"
    by (simp add: c)
  from getContentPreview_ignores_maxLength [of ?c "''rumah''" 5 300] short
  show ?thesis unfolding c by blast
qed


lemma example_wide_cleanContent: "cleanContent example_wide = example_wide"
  by code_simp

lemma example_wide_length: "length example_wide = 161"
  by code_simp

lemma example_wide_position:
  "strings_Index (ToLower (Join (ProcessText example_wide) '' ''))
     (ToLower (Join (ProcessText ''zz'') '' '')) = 159"
  by code_simp

lemma example_wide_wordPos:
  "wordPos_loop (length (Fields (take 159 (Join (ProcessText example_wide) '' ''))))
     (Fields example_wide) 0 = 162"
  by code_simp

text \<open>
  Claim C9, as stated, fails in its last clause: the character offset that the words
  before the match translate to can exceed the length of the cleaned content. Every word
  is counted with one separator, the last word too; when the match begins inside the last
  word, \<^verbatim>\<open>wordPos\<close> is the length plus one (here 162 for a cleaned content of 161 bytes).
\<close>

theorem getContentPreview_wordPos_exceeds_length:
  "160 < length (cleanContent example_wide) \<and>
   strings_Index (ToLower (Join (ProcessText (cleanContent example_wide)) '' ''))
     (ToLower (Join (ProcessText ''zz'') '' '')) = 159 \<and>
   wordPos_loop
     (length (Fields (take 159 (Join (ProcessText (cleanContent example_wide)) '' ''))))
     (Fields (cleanContent example_wide)) 0 = 162 \<and>
   int (length (cleanContent example_wide)) = 161 \<and>
   int (length (cleanContent example_wide)) <
     wordPos_loop
       (length (Fields (take 159 (Join (ProcessText (cleanContent example_wide)) '' ''))))
       (Fields (cleanContent example_wide)) 0"
  by (simp add: example_wide_cleanContent example_wide_length example_wide_position
      example_wide_wordPos)

text \<open>
  Claim C9, amended. \<^verbatim>\<open>getContentPreview\<close> never slices out of range: it returns a preview
  for every content and query, and when the cleaned content is longer than 160 bytes and
  the normalized query is found in the normalized content, the match position lies within
  the normalized content, the bounds of the window satisfy
  \<^verbatim>\<open>0 <= start <= end <= len(cleanedContent)\<close>, and the character offset \<^verbatim>\<open>wordPos\<close> that the
  words before the match translate to exceeds the length of the cleaned content by one at
  most: \<^verbatim>\<open>0 <= wordPos <= len(cleanedContent) + 1\<close>.
\<close>

theorem getContentPreview_in_range:
  "(\<exists>r. getContentPreview content query maxLength = Inr r) \<and>
   (let cleanedContent = cleanContent content;
        contentText = Join (ProcessText cleanedContent) '' '';
        pos = strings_Index (ToLower contentText) (ToLower (Join (ProcessText query) '' ''));
        wordPos = wordPos_loop (length (Fields (take (nat pos) contentText)))
                    (Fields cleanedContent) 0
    in 160 < length cleanedContent \<and> pos \<noteq> -1 \<longrightarrow>
         0 \<le> pos \<and> pos \<le> int (length contentText) \<and>
         (case preview_window cleanedContent (length (Fields (take (nat pos) contentText))) 160 of
            (start, end') \<Rightarrow> 0 \<le> start \<and> start \<le> end' \<and> end' \<le> int (length cleanedContent)) \<and>
         0 \<le> wordPos \<and> wordPos \<le> int (length cleanedContent) + 1)"
proof -
  have "strings_Index (ToLower s) sub \<noteq> -1 \<Longrightarrow>
        0 \<le> strings_Index (ToLower s) sub \<and> strings_Index (ToLower s) sub \<le> int (length s)"
    for s sub
    using strings_Index_range [of "ToLower s" sub] by (simp add: length_ToLower)
  moreover have "0 \<le> wordPos_loop n (Fields s) 0 \<and> wordPos_loop n (Fields s) 0 \<le> int (length s) + 1"
    for n s
    using wordPos_loop_bounds [of 0 n "Fields s"] Fields_length [of s] by linarith
  ultimately show ?thesis
    using getContentPreview_total [of content query maxLength]
      preview_window_bounds [of 160 "cleanContent content"]
    by (simp add: Let_def)
qed

lemma example_cleanContent: "cleanContent example_content = example_cleaned"
  by code_simp

lemma example_ProcessText: "ProcessText example_cleaned = example_terms"
  by code_simp

lemma example_position:
  "strings_Index (ToLower (Join example_terms '' ''))
     (ToLower (Join (ProcessText ''pasokan lahan'') '' '')) = 90"
  by code_simp

lemma example_length: "length example_cleaned = 183"
  by code_simp

lemma example_wordPos:
  "wordPos_loop (length (Fields (take 90 (Join example_terms '' '')))) (Fields example_cleaned) 0 = 86"
  by code_simp

theorem getContentPreview_in_range_witness:
  "(\<exists>r. getContentPreview example_content ''pasokan lahan'' 160 = Inr r) \<and>
   160 < length (cleanContent example_content) \<and>
   strings_Index (ToLower (Join (ProcessText (cleanContent example_content)) '' ''))
     (ToLower (Join (ProcessText ''pasokan lahan'') '' '')) = 90 \<and>
   (case preview_window (cleanContent example_content)
           (length (Fields (take 90 (Join (ProcessText (cleanContent example_content)) '' '')))) 160 of
      (start, end') \<Rightarrow> 0 \<le> start \<and> start \<le> end' \<and> end' \<le> int (length (cleanContent example_content))) \<and>
   wordPos_loop
     (length (Fields (take 90 (Join (ProcessText (cleanContent example_content)) '' ''))))
     (Fields (cleanContent example_content)) 0 = 86 \<and>
   (86::int) \<le> int (length (cleanContent example_content)) + 1"
  using getContentPreview_in_range [of example_content "''pasokan lahan''" 160]
  by (simp add: Let_def example_cleanContent example_ProcessText example_position example_length
      example_wordPos)

section \<open>Properties of the index\<close>

lemma posting_ok_later: "posting_ok D pos d p \<Longrightarrow> pos \<le> pos' \<Longrightarrow> posting_ok D pos' d p"
  by (auto simp: posting_ok_def)

lemma posting_ok_next: "posting_ok D pos d p \<Longrightarrow> posting_ok (Suc D) 0 d p"
  by (auto simp: posting_ok_def)


lemma list_ok_later: "list_ok D pos pl \<Longrightarrow> pos \<le> pos' \<Longrightarrow> list_ok D pos' pl"
  unfolding list_ok_def using posting_ok_later by blast

lemma list_ok_next: "list_ok D pos pl \<Longrightarrow> list_ok (Suc D) 0 pl"
  unfolding list_ok_def using posting_ok_next by blast

lemma index_inv_next: "index_inv D pos idx \<Longrightarrow> index_inv (Suc D) 0 idx"
  unfolding index_inv_def using list_ok_next by blast

text \<open>What one step of the inner loop does to the index.\<close>

lemma add_token_other:
  "t \<noteq> token \<Longrightarrow> Index (add_token D pos token idx) t = Index idx t"
  by (simp add: add_token_def Let_def)

lemma add_token_new_term:
  "Index idx token = None \<Longrightarrow>
   Index (add_token D pos token idx) token =
     Some \<lparr>DocFrequency = 1,
           Postings = [D \<mapsto> \<lparr>DocID = D, Frequency = 1, Positions = [pos]\<rparr>]\<rparr>"
  by (simp add: add_token_def Let_def)

lemma add_token_new_posting:
  "Index idx token = Some pl \<Longrightarrow> Postings pl D = None \<Longrightarrow>
   Index (add_token D pos token idx) token =
     Some (pl\<lparr>DocFrequency := DocFrequency pl + 1,
              Postings := (Postings pl)(D \<mapsto> \<lparr>DocID = D, Frequency = 1, Positions = [pos]\<rparr>)\<rparr>)"
  by (simp add: add_token_def Let_def)

lemma add_token_old_posting:
  "Index idx token = Some pl \<Longrightarrow> Postings pl D = Some q \<Longrightarrow>
   Index (add_token D pos token idx) token =
     Some (pl\<lparr>Postings := (Postings pl)(D \<mapsto>
             q\<lparr>Frequency := Frequency q + 1, Positions := Positions q @ [pos]\<rparr>)\<rparr>)"
  by (simp add: add_token_def Let_def)

lemma dom_add_token: "dom (Index (add_token D pos token idx)) = insert token (dom (Index idx))"
  by (simp add: add_token_def Let_def)

lemma list_ok_add_token:
  assumes "index_inv D pos idx"
  shows "\<exists>pl'. Index (add_token D pos token idx) token = Some pl' \<and> list_ok D (Suc pos) pl'"
proof (cases "Index idx token")
  case None
  then show ?thesis
    by (simp add: add_token_new_term list_ok_def posting_ok_def)
next
  case (Some pl)
  with assms have ok: "list_ok D pos pl"
    by (simp add: index_inv_def)
  show ?thesis
  proof (cases "Postings pl D")
    case None
    then have "D \<notin> dom (Postings pl)" by auto
    with ok have "card (dom ((Postings pl)(D \<mapsto> x))) = DocFrequency pl + 1" for x
      by (simp add: list_ok_def)
    moreover have "posting_ok D (Suc pos) d p"
      if "((Postings pl)(D \<mapsto> \<lparr>DocID = D, Frequency = 1, Positions = [pos]\<rparr>)) d = Some p" for d p
    proof (cases "d = D")
      case True
      with that show ?thesis by (auto simp: posting_ok_def)
    next
      case False
      with that ok have "posting_ok D pos d p" by (simp add: list_ok_def)
      then show ?thesis by (rule posting_ok_later) simp
    qed
    ultimately show ?thesis
      using Some None ok
      by (simp add: add_token_new_posting list_ok_def del: fun_upd_apply)
  next
    case (Some q)
    with ok have q: "posting_ok D pos D q" by (simp add: list_ok_def)
    from Some have "insert D (dom (Postings pl)) = dom (Postings pl)" by auto
    moreover have "posting_ok D (Suc pos) d p"
      if "((Postings pl)(D \<mapsto> q\<lparr>Frequency := Frequency q + 1,
              Positions := Positions q @ [pos]\<rparr>)) d = Some p" for d p
    proof (cases "d = D")
      case True
      with that q show ?thesis
        by (auto simp: posting_ok_def sorted_wrt_append less_Suc_eq)
    next
      case False
      with that ok have "posting_ok D pos d p" by (simp add: list_ok_def)
      then show ?thesis by (rule posting_ok_later) simp
    qed
    ultimately show ?thesis
      using \<open>Index idx token = Some pl\<close> Some ok
      by (simp add: add_token_old_posting list_ok_def del: fun_upd_apply)
  qed
qed

lemma index_inv_add_token:
  assumes "index_inv D pos idx"
  shows "index_inv D (Suc pos) (add_token D pos token idx)"
proof -
  have "list_ok D (Suc pos) pl" if "Index (add_token D pos token idx) t = Some pl" for t pl
  proof (cases "t = token")
    case True
    with that list_ok_add_token [OF assms, of token] show ?thesis by auto
  next
    case False
    with that have "Index idx t = Some pl" by (simp add: add_token_other)
    with assms have "list_ok D pos pl" by (simp add: index_inv_def)
    then show ?thesis by (rule list_ok_later) simp
  qed
  moreover from assms have "finite (dom (Index (add_token D pos token idx)))"
    by (simp add: dom_add_token index_inv_def)
  ultimately show ?thesis by (simp add: index_inv_def)
qed

lemma index_inv_index_tokens:
  "index_inv D pos idx \<Longrightarrow> \<exists>pos'. index_inv D pos' (index_tokens D pos tokens idx)"
proof (induction tokens arbitrary: pos idx)
  case Nil
  then show ?case by auto
next
  case (Cons token tokens)
  from Cons.prems have "index_inv D (Suc pos) (add_token D pos token idx)"
    by (rule index_inv_add_token)
  then show ?case using Cons.IH by simp
qed

lemma index_inv_index_articles:
  "index_inv D 0 idx \<Longrightarrow>
   index_inv (D + length articles) 0 (index_articles D articles idx)"
proof (induction articles arbitrary: D idx)
  case Nil
  then show ?case by simp
next
  case (Cons article articles)
  from index_inv_index_tokens [OF Cons.prems]
  obtain pos' where
    "index_inv D pos' (index_tokens D 0 (ProcessText (Article.Title article @ '' '' @ Article.Content article)) idx)"
    by blast
  then have "index_inv (Suc D) 0 (index_tokens D 0 (ProcessText (Article.Title article @ '' '' @ Article.Content article)) idx)"
    by (rule index_inv_next)
  from Cons.IH [OF this] show ?case by simp
qed

lemma index_inv_build: "index_inv (length articles) 0 (buildInvertedIndex articles)"
proof -
  have "index_inv 0 0 NewInvertedIndex"
    by (simp add: index_inv_def NewInvertedIndex_def)
  from index_inv_index_articles [OF this, of articles] show ?thesis
    by (simp add: buildInvertedIndex_def)
qed

text \<open>
  Claim C2. In the index that \<^verbatim>\<open>buildInvertedIndex\<close> builds, for every term
  \<^verbatim>\<open>DocFrequency\<close> is the number of documents in its postings map, and for every posting
  \<^verbatim>\<open>Frequency\<close> is the length of \<^verbatim>\<open>Positions\<close> and \<^verbatim>\<open>Positions\<close> is ascending.
\<close>

theorem buildInvertedIndex_consistent:
  "Index (buildInvertedIndex articles) t = Some pl \<longrightarrow>
     finite (dom (Postings pl)) \<and> DocFrequency pl = card (dom (Postings pl)) \<and>
     (\<forall>d p. Postings pl d = Some p \<longrightarrow>
        Frequency p = length (Positions p) \<and> sorted_wrt (<) (Positions p))"
  using index_inv_build [of articles]
  by (auto simp: index_inv_def list_ok_def posting_ok_def)


lemma example_harga:
  "map_option DocFrequency (Index (buildInvertedIndex example_articles) ''harga'') = Some 2 \<and>
   (case Index (buildInvertedIndex example_articles) ''harga'' of
      None \<Rightarrow> None
    | Some pl \<Rightarrow> map_option Positions (Postings pl 0)) = Some [0, 3]"
  by code_simp

theorem buildInvertedIndex_consistent_witness:
  "(case Index (buildInvertedIndex example_articles) ''harga'' of
      None \<Rightarrow> False
    | Some pl \<Rightarrow>
        DocFrequency pl = 2 \<and> card (dom (Postings pl)) = 2 \<and>
        (case Postings pl 0 of
           None \<Rightarrow> False
         | Some p \<Rightarrow> Positions p = [0, 3] \<and> Frequency p = 2 \<and> sorted_wrt (<) (Positions p)))"
  using buildInvertedIndex_consistent [of example_articles "''harga''"] example_harga
  by (auto split: option.splits)

section \<open>Properties of the weights\<close>

lemma docVector_calculateTFIDF:
  "docVector (calculateTFIDF idx N) d t =
     (case Index idx t of
        None \<Rightarrow> None
      | Some pl \<Rightarrow>
          (case Postings pl d of
             None \<Rightarrow> None
           | Some p \<Rightarrow> Some (real (Frequency p) * ln (real N / real (DocFrequency pl)))))"
  by (simp add: docVector_def calculateTFIDF_def Let_def split: option.splits)

text \<open>
  Claim C3. \<^verbatim>\<open>calculateTFIDF\<close> has a row for exactly the terms of the index, and in the row
  of a term an entry for exactly the documents of its postings map; the entry is the
  posting's frequency times \<open>ln (totalDocs / df)\<close>, with the term's document frequency
  \<open>df\<close>, and neither factor is smoothed or scaled.
\<close>

theorem calculateTFIDF_weights:
  "dom (calculateTFIDF idx totalDocs) = dom (Index idx) \<and>
   (case Index idx t of
      None \<Rightarrow> calculateTFIDF idx totalDocs t = None
    | Some pl \<Rightarrow>
        (\<exists>scores. calculateTFIDF idx totalDocs t = Some scores \<and>
           dom scores = dom (Postings pl) \<and>
           (case Postings pl d of
              None \<Rightarrow> scores d = None
            | Some p \<Rightarrow>
                scores d = Some (real (Frequency p) * ln (real totalDocs / real (DocFrequency pl))))))"
  by (auto simp: calculateTFIDF_def Let_def split: option.splits)


theorem calculateTFIDF_weights_witness:
  "(case Index (buildInvertedIndex example_articles) ''harga'' of
      None \<Rightarrow> False
    | Some pl \<Rightarrow>
        (\<exists>scores. calculateTFIDF (buildInvertedIndex example_articles) 3 ''harga'' = Some scores \<and>
           scores 0 = Some (2 * ln (3 / 2))))"
proof -
  have "map_option DocFrequency (Index (buildInvertedIndex example_articles) ''harga'') = Some 2 \<and>
        (case Index (buildInvertedIndex example_articles) ''harga'' of
           None \<Rightarrow> None
         | Some pl \<Rightarrow> map_option Frequency (Postings pl 0)) = Some 2"
    by code_simp
  with calculateTFIDF_weights [of "buildInvertedIndex example_articles" 3 "''harga''" 0]
  show ?thesis
    by (auto split: option.splits)
qed

section \<open>Properties of the similarity scores\<close>

subsection \<open>Which terms have a posting\<close>

lemma has_posting_add_token:
  "has_posting (add_token D pos token idx) t d \<longleftrightarrow> has_posting idx t d \<or> (t = token \<and> d = D)"
proof (cases "t = token")
  case False
  then show ?thesis by (simp add: has_posting_def add_token_other)
next
  case True
  show ?thesis
  proof (cases "Index idx token")
    case None
    with True show ?thesis by (simp add: has_posting_def add_token_new_term)
  next
    case (Some pl)
    then show ?thesis
      using True
      by (cases "Postings pl D")
        (simp_all add: has_posting_def add_token_new_posting add_token_old_posting)
  qed
qed

lemma has_posting_index_tokens:
  "has_posting (index_tokens D pos tokens idx) t d \<longleftrightarrow>
     has_posting idx t d \<or> (t \<in> set tokens \<and> d = D)"
  by (induction tokens arbitrary: pos idx) (auto simp: has_posting_add_token)

lemma has_posting_index_articles:
  "has_posting (index_articles D articles idx) t d \<longleftrightarrow>
     has_posting idx t d \<or>
     (D \<le> d \<and> d < D + length articles \<and> t \<in> set (ProcessText (article_text (articles ! (d - D)))))"
proof (induction articles arbitrary: D idx)
  case Nil
  then show ?case by auto
next
  case (Cons article articles)
  have "(D \<le> d \<and> d < D + length (article # articles) \<and>
           t \<in> set (ProcessText (article_text ((article # articles) ! (d - D))))) \<longleftrightarrow>
        (t \<in> set (ProcessText (article_text article)) \<and> d = D) \<or>
        (Suc D \<le> d \<and> d < Suc D + length articles \<and>
           t \<in> set (ProcessText (article_text (articles ! (d - Suc D)))))"
  proof (cases "d = D")
    case True
    then show ?thesis by simp
  next
    case False
    then have "D \<le> d \<longleftrightarrow> Suc D \<le> d" by arith
    moreover have "Suc D \<le> d \<Longrightarrow> (article # articles) ! (d - D) = articles ! (d - Suc D)"
      by (simp add: Suc_diff_le)
    ultimately show ?thesis using False by auto
  qed
  then show ?case
    by (simp add: Cons.IH has_posting_index_tokens article_text_def del: length_Cons nth_Cons_Suc)
qed

lemma has_posting_build:
  "has_posting (buildInvertedIndex articles) t d \<longleftrightarrow>
     d < length articles \<and> t \<in> set (ProcessText (article_text (articles ! d)))"
proof -
  have "\<not> has_posting NewInvertedIndex t d"
    by (simp add: has_posting_def NewInvertedIndex_def)
  then show ?thesis
    by (simp add: buildInvertedIndex_def has_posting_index_articles)
qed


subsection \<open>Normalized vectors\<close>








subsection \<open>The cosine score\<close>





subsection \<open>The Jaccard score\<close>




subsection \<open>The vectors of \<^verbatim>\<open>searching\<close>\<close>

lemma dom_count_tokens: "dom (count_tokens tokens qv) = dom qv \<union> set tokens"
  by (induction tokens arbitrary: qv) auto



lemma dom_docVector: "dom (docVector (calculateTFIDF idx N) d) = {t. has_posting idx t d}"
  by (auto simp: docVector_calculateTFIDF has_posting_def dom_def split: option.splits)


lemma dom_docVector_build:
  "dom (docVector (calculateTFIDF (buildInvertedIndex articles) N) d) =
     (if d < length articles then set (ProcessText (article_text (articles ! d))) else {})"
  by (auto simp: dom_docVector has_posting_build)




lemma example_article_terms:
  "ProcessText (article_text (example_articles ! 0)) =
     [''harga'', ''rumah'', ''naik'', ''harga'', ''rumah'', ''kota'', ''naik'', ''tajam'', ''tahun'']"
  by code_simp

section \<open>Properties of searching\<close>

lemma score_articles_scores:
  "\<exists>results. score_articles query method qv tfidf i articles = Inr results \<and>
     map Score results =
       filter (\<lambda>s. 0 < s) (map (method_score method qv tfidf) [i..<i + length articles])"
proof (induction articles arbitrary: i)
  case Nil
  then show ?case by simp
next
  case (Cons article articles)
  from Cons.IH [of "Suc i"] obtain rest where
    rest: "score_articles query method qv tfidf (Suc i) articles = Inr rest"
    and scores: "map Score rest =
      filter (\<lambda>s. 0 < s) (map (method_score method qv tfidf) [Suc i..<Suc i + length articles])"
    by blast
  obtain preview where
    preview: "getContentPreview (Article.Content article) query 160 = Inr preview"
    using getContentPreview_total by blast
  have range: "[i..<i + length (article # articles)] = i # [Suc i..<Suc i + length articles]"
    by (simp add: upt_rec)
  show ?case
    unfolding range
    by (simp add: rest scores preview Let_def)
qed

lemma mset_insert_less: "mset (insert_less lessf x ys) = add_mset x (mset ys)"
  by (induction ys) simp_all

lemma mset_foldl_insert_less:
  "mset (foldl (\<lambda>acc x. insert_less lessf x acc) acc xs) = mset acc + mset xs"
  by (induction xs arbitrary: acc) (simp_all add: mset_insert_less)

lemma mset_sort_Slice: "mset (sort_Slice lessf xs) = mset xs"
  by (simp add: sort_Slice_def mset_foldl_insert_less)

lemma set_insert_less: "set (insert_less lessf x ys) = insert x (set ys)"
  using mset_insert_less [of lessf x ys, THEN arg_cong, of set_mset] by simp

lemma sorted_insert_less:
  "sorted_wrt (\<lambda>a b. Score b \<le> Score a) ys \<Longrightarrow>
   sorted_wrt (\<lambda>a b. Score b \<le> Score a) (insert_less (\<lambda>a b. Score a > Score b) x ys)"
  by (induction ys) (auto simp: set_insert_less)

lemma sorted_foldl_insert_less:
  "sorted_wrt (\<lambda>a b. Score b \<le> Score a) acc \<Longrightarrow>
   sorted_wrt (\<lambda>a b. Score b \<le> Score a)
     (foldl (\<lambda>acc x. insert_less (\<lambda>a b. Score a > Score b) x acc) acc xs)"
  by (induction xs arbitrary: acc) (simp_all add: sorted_insert_less)

lemma sorted_sort_Slice:
  "sorted_wrt (\<lambda>a b. Score b \<le> Score a) (sort_Slice (\<lambda>a b. Score a > Score b) xs)"
  by (simp add: sort_Slice_def sorted_foldl_insert_less)

text \<open>
  Claim C6. For every query and method, \<^verbatim>\<open>searching\<close> returns a sequence of results whose
  scores are all greater than 0 and are in non-increasing order. The scores are those of
  the loaded documents that score more than 0, each once.
\<close>

theorem searching_positive_sorted:
  "\<exists>results. searching loaded query method = Inr results \<and>
     (\<forall>r \<in> set results. 0 < Score r) \<and>
     sorted_wrt (\<lambda>a b. Score b \<le> Score a) results \<and>
     (case loaded of
        None \<Rightarrow> results = []
      | Some articles \<Rightarrow>
          mset (map Score results) =
            mset (filter (\<lambda>s. 0 < s)
              (map (method_score method (count_tokens (ProcessText query) Map.empty)
                      (calculateTFIDF (buildInvertedIndex articles) (length articles)))
                 [0..<length articles])))"
proof (cases loaded)
  case None
  then show ?thesis by (simp add: searching_def)
next
  case (Some articles)
  define qv where "qv = count_tokens (ProcessText query) Map.empty"
  define tfidf where "tfidf = calculateTFIDF (buildInvertedIndex articles) (length articles)"
  from score_articles_scores [of query "method" qv tfidf 0 articles]
  obtain unsorted where
    u: "score_articles query method qv tfidf 0 articles = Inr unsorted"
    and scores: "map Score unsorted =
      filter (\<lambda>s. 0 < s) (map (method_score method qv tfidf) [0..<length articles])"
    by auto
  define results where "results = sort_Slice (\<lambda>a b. Score a > Score b) unsorted"
  have r: "searching loaded query method = Inr results"
    using Some u by (simp add: searching_def Let_def qv_def tfidf_def results_def)
  have m: "mset results = mset unsorted"
    by (simp add: results_def mset_sort_Slice)
  then have ms: "mset (map Score results) = mset (map Score unsorted)"
    by (metis mset_map)
  have "\<forall>s \<in> set (map Score unsorted). 0 < s"
    unfolding scores by simp
  then have pos: "\<forall>r \<in> set results. 0 < Score r"
    using m [THEN arg_cong, of set_mset] by simp
  have "sorted_wrt (\<lambda>a b. Score b \<le> Score a) results"
    unfolding results_def by (rule sorted_sort_Slice)
  with r pos ms scores Some show ?thesis
    by (simp add: qv_def tfidf_def)
qed


lemma jaccard_of_sets:
  "jaccardSimilarityWithTFIDF (count_tokens tokens Map.empty)
     (calculateTFIDF (buildInvertedIndex articles) N) d =
     (let Q = set tokens;
          D = (if d < length articles then set (ProcessText (article_text (articles ! d))) else {});
          i = card (Q \<inter> D);
          u = card Q + card D - i
      in if u = 0 then 0 else real i / real u)"
proof -
  have "{t \<in> A. t \<in> B} = A \<inter> B" for A B :: "string set" by auto
  then show ?thesis
    by (simp add: jaccardSimilarityWithTFIDF_def Let_def dom_count_tokens dom_docVector_build)
qed

lemma example_query_terms: "ProcessText ''harga rumah'' = [''harga'', ''rumah'']"
  by code_simp

lemma example_other_terms:
  "ProcessText (article_text (example_articles ! 1)) =
     [''pasar'', ''propert'', ''harga'', ''tanah'', ''turun''] \<and>
   ProcessText (article_text (example_articles ! 2)) = [''resep'', ''kue'', ''gula'', ''pung'']"
  by code_simp

lemma example_scores:
  "map (method_score ''jaccard'' (count_tokens (ProcessText ''harga rumah'') Map.empty)
          (calculateTFIDF (buildInvertedIndex example_articles) (length example_articles)))
     [0..<length example_articles] = [1 / 3, 1 / 6, 0]"
proof -
  have n: "length example_articles = 3"
    by (simp add: example_articles_def)
  have r: "[0..<3] = [0, 1, 2]"
    by (simp add: upt_rec)
  have j: "method_score ''jaccard'' (count_tokens tokens Map.empty)
             (calculateTFIDF (buildInvertedIndex example_articles) 3) d =
           (let Q = set tokens;
                D = (if d < 3 then set (ProcessText (article_text (example_articles ! d))) else {});
                i = card (Q \<inter> D);
                u = card Q + card D - i
            in if u = 0 then 0 else real i / real u)" for tokens d
    by (simp only: method_score_def jaccard_of_sets n) simp
  have o: "ProcessText (article_text (example_articles ! Suc 0)) =
             [''pasar'', ''propert'', ''harga'', ''tanah'', ''turun'']"
    using example_other_terms by simp
  show ?thesis
    unfolding n r example_query_terms list.map j
    by (simp add: example_article_terms example_other_terms o Let_def card_insert_if)
qed

theorem searching_positive_sorted_witness:
  "\<exists>results. searching (Some example_articles) ''harga rumah'' ''jaccard'' = Inr results \<and>
     mset (map Score results) = {#1 / 3, 1 / 6#} \<and>
     list_all (\<lambda>r. 0 < Score r) results \<and>
     sorted_wrt (\<lambda>a b. Score b \<le> Score a) results"
  using searching_positive_sorted [of "Some example_articles" "''harga rumah''" "''jaccard''"]
  by (auto simp: example_scores list_all_iff)

section \<open>Properties of the character classes\<close>

lemma is_digit_word: "is_digit c \<Longrightarrow> is_word c"
  by (simp add: is_word_def)

lemma is_word_not_space: "is_word c \<Longrightarrow> \<not> IsSpace c"
  by (auto simp: is_word_def is_digit_def is_letter_def is_upper_def is_lower_def IsSpace_def
      regex_space_def)

lemma regex_space_IsSpace: "regex_space c \<Longrightarrow> IsSpace c"
  by (simp add: IsSpace_def)

lemma space_IsSpace: "IsSpace (CHR '' '')"
  by (simp add: IsSpace_def regex_space_def)

lemma space_not_word: "\<not> is_word (CHR '' '')"
  using is_word_not_space space_IsSpace by blast

lemma ToLower_char_upper: "is_upper c \<Longrightarrow> is_lower (ToLower_char c)"
  by (auto simp: is_upper_def is_lower_def ToLower_char_def)

lemma ToLower_char_fixed: "\<not> is_upper c \<Longrightarrow> ToLower_char c = c"
  by (simp add: is_upper_def ToLower_char_def)

lemma lower_not_upper: "is_lower c \<Longrightarrow> \<not> is_upper c"
  by (auto simp: is_upper_def is_lower_def)

lemma upper_not_digit: "is_upper c \<Longrightarrow> \<not> is_digit c \<and> c \<noteq> CHR ''_''"
  by (auto simp: is_upper_def is_digit_def)

lemma lower_not_digit: "is_lower c \<Longrightarrow> \<not> is_digit c"
  by (auto simp: is_lower_def is_digit_def)

lemma ToLower_char_not_upper: "\<not> is_upper (ToLower_char c)"
  by (cases "is_upper c") (auto simp: ToLower_char_fixed dest: ToLower_char_upper lower_not_upper)

lemma ToLower_char_word: "is_word c \<Longrightarrow> is_word (ToLower_char c)"
  by (cases "is_upper c")
    (auto simp: ToLower_char_fixed is_word_def is_letter_def dest: ToLower_char_upper)

lemma ToLower_char_digit: "is_digit (ToLower_char c) = is_digit c"
  by (cases "is_upper c")
    (auto simp: ToLower_char_fixed dest: ToLower_char_upper lower_not_digit upper_not_digit)


lemma word_is_ascii: "is_word c \<Longrightarrow> (of_char c :: nat) < 128"
  by (auto simp: is_word_def is_digit_def is_letter_def is_upper_def is_lower_def)

lemma continuation_not_word: "byte_in lo hi c \<Longrightarrow> 0x80 \<le> lo \<Longrightarrow> \<not> is_word c"
  using word_is_ascii [of c] by (auto simp: byte_in_def)

section \<open>Properties of the patterns of the text processor\<close>

declare ReplaceAllString.simps(2) [simp del]

lemma rune_width_positive: "0 < rune_width (c # cs)"
  by (cases "c # cs" rule: rune_width.cases) auto

text \<open>The bytes of a rune after its first byte are no word bytes.\<close>

lemma rune_tail_not_word:
  "b \<in> set (take (rune_width (c # cs) - 1) cs) \<Longrightarrow> \<not> is_word b"
proof (cases "c # cs" rule: rune_width.cases)
  case 1
  then show ?thesis by simp
next
  case (2 b0)
  assume "b \<in> set (take (rune_width (c # cs) - 1) cs)"
  with 2 show ?thesis by simp
next
  case (3 b0 b1)
  assume "b \<in> set (take (rune_width (c # cs) - 1) cs)"
  with 3 show ?thesis
    by (auto simp: continuation_not_word split: if_splits)
next
  case (4 b0 b1 b2 bs)
  assume b: "b \<in> set (take (rune_width (c # cs) - 1) cs)"
  from 4 have c: "c = b0" and cs: "cs = b1 # b2 # bs" by simp_all
  define two where "two = (byte_in 0xC2 0xDF b0 \<and> byte_in 0x80 0xBF b1)"
  define three where "three =
    ((byte_in 0xE0 0xE0 b0 \<and> byte_in 0xA0 0xBF b1 \<or>
      byte_in 0xE1 0xEC b0 \<and> byte_in 0x80 0xBF b1 \<or>
      byte_in 0xED 0xED b0 \<and> byte_in 0x80 0x9F b1 \<or>
      byte_in 0xEE 0xEF b0 \<and> byte_in 0x80 0xBF b1) \<and> byte_in 0x80 0xBF b2)"
  define four where "four =
    ((byte_in 0xF0 0xF0 b0 \<and> byte_in 0x90 0xBF b1 \<or>
      byte_in 0xF1 0xF3 b0 \<and> byte_in 0x80 0xBF b1 \<or>
      byte_in 0xF4 0xF4 b0 \<and> byte_in 0x80 0x8F b1) \<and> byte_in 0x80 0xBF b2 \<and>
     (case bs of [] \<Rightarrow> False | b3 # _ \<Rightarrow> byte_in 0x80 0xBF b3))"
  have w: "rune_width (c # cs) = (if two then 2 else if three then 3 else if four then 4 else 1)"
    unfolding c cs two_def three_def four_def by simp
  show ?thesis
  proof (cases two)
    case True
    with w b cs have "b = b1" by simp
    with True show ?thesis by (auto simp: two_def continuation_not_word)
  next
    case not2: False
    show ?thesis
    proof (cases three)
      case True
      with w not2 b cs have "b = b1 \<or> b = b2" by (auto simp: numeral_2_eq_2)
      with True show ?thesis by (auto simp: three_def continuation_not_word)
    next
      case not3: False
      show ?thesis
      proof (cases four)
        case True
        then obtain b3 bs' where bs: "bs = b3 # bs'" and b3: "byte_in 0x80 0xBF b3"
          by (auto simp: four_def split: list.splits)
        with w not2 not3 True b cs have "b = b1 \<or> b = b2 \<or> b = b3"
          by (auto simp: numeral_3_eq_3)
        with True b3 show ?thesis by (auto simp: four_def continuation_not_word)
      next
        case False
        with w not2 not3 b show ?thesis by simp
      qed
    qed
  qed
qed


lemma punctuation_None:
  "punctuation prev (c # cs) = None \<longleftrightarrow> is_word c \<or> regex_space c"
  by (simp add: punctuation_def)

lemma punctuation_Some:
  "punctuation prev (c # cs) = Some k \<Longrightarrow>
     \<not> is_word c \<and> \<not> regex_space c \<and> k = rune_width (c # cs) \<and> 0 < k"
  using rune_width_positive [of c cs] by (auto simp: punctuation_def split: if_splits)

text \<open>After the first pass the text holds word bytes and white space only.\<close>

lemma punctuation_pass_chars_aux:
  "m = punctuation \<Longrightarrow> repl = literally '' '' \<Longrightarrow>
   x \<in> set (ReplaceAllString m repl prev s) \<Longrightarrow> is_word x \<or> regex_space x"
proof (induction m repl prev s rule: ReplaceAllString.induct)
  case (1 m repl prev)
  then show ?case by simp
next
  case (2 m repl prev c cs)
  show ?case
  proof (cases "m prev (c # cs)")
    case None
    with "2.prems" have "x = c \<or> x \<in> set (ReplaceAllString m repl (Some c) cs)"
      by (simp add: ReplaceAllString.simps(2))
    with "2.IH"(1) [OF None] "2.prems"(1,2) None show ?thesis
      by (auto simp: punctuation_None)
  next
    case (Some k)
    with "2.prems"(1) have "punctuation prev (c # cs) = Some k" by simp
    from punctuation_Some [OF this] have "0 < k" by simp
    then obtain n where k: "k = Suc n"
      by (cases k) simp_all
    with "2.prems" Some
    have "x = CHR '' '' \<or>
          x \<in> set (ReplaceAllString m repl (Some (last (c # take n cs))) (drop n cs))"
      by (simp add: ReplaceAllString.simps(2) literally_def)
    with "2.IH"(3) [OF Some k] "2.prems"(1,2) show ?thesis
      by (auto simp: regex_space_def)
  qed
qed

lemma punctuation_pass_chars:
  "x \<in> set (ReplaceAllString punctuation (literally '' '') prev s) \<Longrightarrow> is_word x \<or> regex_space x"
  by (rule punctuation_pass_chars_aux [OF refl refl])

text \<open>The first pass keeps the word bytes, in order.\<close>

lemma punctuation_pass_words_aux:
  "m = punctuation \<Longrightarrow> repl = literally '' '' \<Longrightarrow>
   filter is_word (ReplaceAllString m repl prev s) = filter is_word s"
proof (induction m repl prev s rule: ReplaceAllString.induct)
  case (1 m repl prev)
  then show ?case by simp
next
  case (2 m repl prev c cs)
  show ?case
  proof (cases "m prev (c # cs)")
    case None
    with "2.IH"(1) [OF None] "2.prems" show ?thesis
      by (simp add: ReplaceAllString.simps(2))
  next
    case (Some k)
    with "2.prems"(1) have "punctuation prev (c # cs) = Some k" by simp
    from punctuation_Some [OF this]
    have c: "\<not> is_word c" and kw: "k = rune_width (c # cs)" and "0 < k" by simp_all
    define n where "n = k - 1"
    with \<open>0 < k\<close> have k: "k = Suc n" by simp
    have "\<not> is_word b" if "b \<in> set (take n cs)" for b
      using that rune_tail_not_word [of b c cs] by (simp add: n_def kw)
    then have "filter is_word (take n cs) = []"
      by (simp add: filter_empty_conv)
    moreover have "filter is_word cs = filter is_word (take n cs) @ filter is_word (drop n cs)"
      by (simp only: filter_append [symmetric] append_take_drop_id)
    ultimately have "filter is_word cs = filter is_word (drop n cs)"
      by simp
    with "2.IH"(3) [OF Some k] "2.prems" Some k c show ?thesis
      by (simp add: ReplaceAllString.simps(2) literally_def space_not_word)
  qed
qed

lemma punctuation_pass_words:
  "filter is_word (ReplaceAllString punctuation (literally '' '') prev s) = filter is_word s"
  by (rule punctuation_pass_words_aux [OF refl refl])


subsection \<open>The pattern of the numbers\<close>

lemma numbers_Some:
  "numbers prev s = Some k \<longleftrightarrow>
     takeWhile is_digit s \<noteq> [] \<and> \<not> after_word prev \<and> \<not> before_word (dropWhile is_digit s) \<and>
     k = length (takeWhile is_digit s)"
  by (auto simp: numbers_def Let_def)

lemma numbers_None:
  "numbers prev s = None \<longleftrightarrow>
     takeWhile is_digit s = [] \<or> after_word prev \<or> before_word (dropWhile is_digit s)"
  by (auto simp: numbers_def Let_def)

text \<open>What a match of the numbers covers: digits, up to a byte that is no word byte.\<close>

lemma numbers_match:
  assumes "numbers prev (c # cs) = Some (Suc n)"
  shows "is_digit c" and "list_all is_digit (take n cs)" and "drop n cs = dropWhile is_digit cs"
    and "\<not> after_word prev" and "\<not> before_word (drop n cs)"
proof -
  from assms have run: "takeWhile is_digit (c # cs) \<noteq> []"
    and n: "Suc n = length (takeWhile is_digit (c # cs))"
    and p: "\<not> after_word prev" and r: "\<not> before_word (dropWhile is_digit (c # cs))"
    by (simp_all add: numbers_Some)
  from run show c: "is_digit c" by (auto split: if_splits)
  with n have n': "n = length (takeWhile is_digit cs)" by simp
  then have t: "take n cs = takeWhile is_digit cs"
    by (metis append_eq_conv_conj takeWhile_dropWhile_id)
  then show "list_all is_digit (take n cs)"
    by (simp add: list_all_iff) (metis set_takeWhileD)
  from n' show d: "drop n cs = dropWhile is_digit cs"
    by (metis append_eq_conv_conj takeWhile_dropWhile_id)
  from p show "\<not> after_word prev" .
  from r c d show "\<not> before_word (drop n cs)" by simp
qed

lemma before_word_Cons: "before_word (c # cs) = is_word c"
  by (simp add: before_word_def)

lemma after_word_Some: "after_word (Some c) = is_word c"
  by (simp add: after_word_def)


lemma word_run_not_digits:
  "before_word (dropWhile is_digit s) \<Longrightarrow> \<not> list_all is_digit (takeWhile is_word s)"
  by (induction s) (auto simp: before_word_def is_digit_word split: if_splits)

text \<open>
  The fields of the text after the second pass, read with the field \<open>w\<close> begun: when the
  field begun will hold a byte that is no digit, no field is a string of digits.
\<close>

lemma numbers_pass_fields_aux:
  assumes "m = numbers" and "repl = literally '' ''"
    and "\<forall>c \<in> set s. is_word c \<or> regex_space c"
    and "w \<noteq> [] \<longrightarrow> after_word prev"
    and "w = [] \<and> after_word prev \<longrightarrow> \<not> before_word s"
    and "w \<noteq> [] \<longrightarrow> \<not> list_all is_digit (w @ takeWhile is_word s)"
  shows "\<forall>f \<in> set (fields_from w (ReplaceAllString m repl prev s)). \<not> list_all is_digit f"
  using assms
proof (induction m repl prev s arbitrary: w rule: ReplaceAllString.induct)
  case (1 m repl prev)
  then show ?case by simp
next
  case (2 m repl prev c cs)
  note m = \<open>m = numbers\<close> and repl = \<open>repl = literally '' ''\<close>
  from "2.prems"(3) have c: "is_word c \<or> regex_space c"
    and cs: "\<forall>c \<in> set cs. is_word c \<or> regex_space c" by simp_all
  show ?case
  proof (cases "m prev (c # cs)")
    case None
    then have out: "ReplaceAllString m repl prev (c # cs) = c # ReplaceAllString m repl (Some c) cs"
      by (simp add: ReplaceAllString.simps(2))
    show ?thesis
    proof (cases "is_word c")
      case True
      have inv: "\<not> list_all is_digit ((w @ [c]) @ takeWhile is_word cs)"
      proof (cases "w = []")
        case False
        with "2.prems"(6) True show ?thesis by simp
      next
        case w: True
        with "2.prems"(5) True have "\<not> after_word prev"
          by (auto simp: before_word_Cons)
        with None m have "takeWhile is_digit (c # cs) = [] \<or> before_word (dropWhile is_digit (c # cs))"
          by (simp add: numbers_None)
        then show ?thesis
        proof
          assume "takeWhile is_digit (c # cs) = []"
          then have "\<not> is_digit c" by (auto split: if_splits)
          then show ?thesis by simp
        next
          assume "before_word (dropWhile is_digit (c # cs))"
          from word_run_not_digits [OF this] True w show ?thesis by simp
        qed
      qed
      have "\<forall>f \<in> set (fields_from (w @ [c]) (ReplaceAllString m repl (Some c) cs)).
              \<not> list_all is_digit f"
        using True inv
        by (intro "2.IH"(1) [OF None m repl cs]) (simp_all add: after_word_Some)
      with True show ?thesis
        by (simp add: out is_word_not_space)
    next
      case False
      with c have sp: "IsSpace c" by (simp add: regex_space_IsSpace)
      have rest: "\<forall>f \<in> set (fields_from [] (ReplaceAllString m repl (Some c) cs)).
              \<not> list_all is_digit f"
        using False
        by (intro "2.IH"(1) [OF None m repl cs]) (simp_all add: after_word_Some)
      from "2.prems"(6) False have "w \<noteq> [] \<longrightarrow> \<not> list_all is_digit w" by simp
      with rest sp show ?thesis
        by (simp add: out)
    qed
  next
    case (Some k)
    with m have "0 < k" by (auto simp: numbers_Some)
    then obtain n where k: "k = Suc n" by (cases k) simp_all
    from Some k m have match: "numbers prev (c # cs) = Some (Suc n)" by simp
    from numbers_match(4) [OF match] "2.prems"(4) have w: "w = []" by auto
    have out: "ReplaceAllString m repl prev (c # cs) =
        CHR '' '' # ReplaceAllString m repl (Some (last (c # take n cs))) (drop n cs)"
      using Some k repl by (simp add: ReplaceAllString.simps(2) literally_def)
    have "\<forall>f \<in> set (fields_from []
              (ReplaceAllString m repl (Some (last (c # take n cs))) (drop n cs))).
            \<not> list_all is_digit f"
    proof (intro "2.IH"(3) [OF Some k m repl])
      show "\<forall>c \<in> set (drop n cs). is_word c \<or> regex_space c"
        using cs by (meson in_set_dropD)
      show "[] = [] \<and> after_word (Some (last (c # take n cs))) \<longrightarrow> \<not> before_word (drop n cs)"
        using numbers_match(5) [OF match] by simp
    qed simp_all
    then show ?thesis
      by (simp add: out w space_IsSpace)
  qed
qed

lemma numbers_pass_fields:
  assumes "\<forall>c \<in> set s. is_word c \<or> regex_space c"
  shows "\<forall>f \<in> set (Fields (ReplaceAllString numbers (literally '' '') None s)).
           \<not> list_all is_digit f"
  unfolding Fields_def
  by (rule numbers_pass_fields_aux [OF refl refl assms]) (simp_all add: after_word_def)


text \<open>The second pass puts in spaces only, and keeps what is neither a digit nor a space.\<close>

lemma numbers_pass_chars_aux:
  "m = numbers \<Longrightarrow> repl = literally '' '' \<Longrightarrow>
   x \<in> set (ReplaceAllString m repl prev s) \<Longrightarrow> x \<in> set s \<or> x = CHR '' ''"
proof (induction m repl prev s rule: ReplaceAllString.induct)
  case (1 m repl prev)
  then show ?case by simp
next
  case (2 m repl prev c cs)
  show ?case
  proof (cases "m prev (c # cs)")
    case None
    with "2.prems" have "x = c \<or> x \<in> set (ReplaceAllString m repl (Some c) cs)"
      by (simp add: ReplaceAllString.simps(2))
    with "2.IH"(1) [OF None] "2.prems"(1,2) show ?thesis by auto
  next
    case (Some k)
    with "2.prems"(1) have "0 < k" by (auto simp: numbers_Some)
    then obtain n where k: "k = Suc n" by (cases k) simp_all
    with "2.prems" Some
    have "x = CHR '' '' \<or>
          x \<in> set (ReplaceAllString m repl (Some (last (c # take n cs))) (drop n cs))"
      by (simp add: ReplaceAllString.simps(2) literally_def)
    with "2.IH"(3) [OF Some k] "2.prems"(1,2) show ?thesis
      by (auto dest: in_set_dropD)
  qed
qed

lemma numbers_pass_chars:
  "x \<in> set (ReplaceAllString numbers (literally '' '') prev s) \<Longrightarrow> x \<in> set s \<or> x = CHR '' ''"
  by (rule numbers_pass_chars_aux [OF refl refl])

lemma numbers_pass_keeps_aux:
  assumes "m = numbers" and "repl = literally '' ''"
    and "\<And>c. P c \<Longrightarrow> \<not> is_digit c \<and> c \<noteq> CHR '' ''"
  shows "filter P (ReplaceAllString m repl prev s) = filter P s"
  using assms(1,2)
proof (induction m repl prev s rule: ReplaceAllString.induct)
  case (1 m repl prev)
  then show ?case by simp
next
  case (2 m repl prev c cs)
  show ?case
  proof (cases "m prev (c # cs)")
    case None
    with "2.IH"(1) [OF None] "2.prems" show ?thesis
      by (simp add: ReplaceAllString.simps(2))
  next
    case (Some k)
    with "2.prems"(1) have "0 < k" by (auto simp: numbers_Some)
    then obtain n where k: "k = Suc n" by (cases k) simp_all
    from Some k "2.prems"(1) have match: "numbers prev (c # cs) = Some (Suc n)" by simp
    from numbers_match(2) [OF match] assms(3) have "filter P (take n cs) = []"
      by (auto simp: filter_empty_conv list_all_iff)
    moreover have "filter P cs = filter P (take n cs) @ filter P (drop n cs)"
      by (simp only: filter_append [symmetric] append_take_drop_id)
    ultimately have "filter P cs = filter P (drop n cs)" by simp
    moreover from numbers_match(1) [OF match] assms(3) have "\<not> P c" by auto
    moreover from assms(3) have "\<not> P (CHR '' '')" by auto
    ultimately show ?thesis
      using "2.IH"(3) [OF Some k] "2.prems" Some k
      by (simp add: ReplaceAllString.simps(2) literally_def)
  qed
qed

lemma numbers_pass_keeps:
  "(\<And>c. P c \<Longrightarrow> \<not> is_digit c \<and> c \<noteq> CHR '' '') \<Longrightarrow>
   filter P (ReplaceAllString numbers (literally '' '') prev s) = filter P s"
  by (rule numbers_pass_keeps_aux [OF refl refl])

subsection \<open>Text that the passes leave as it is\<close>

lemma punctuation_pass_clean:
  "\<forall>c \<in> set s. is_word c \<or> regex_space c \<Longrightarrow> ReplaceAllString punctuation repl prev s = s"
  by (induction s arbitrary: prev)
    (simp_all add: ReplaceAllString.simps(2) punctuation_None [THEN iffD2])

lemma dropWhile_digits_word:
  assumes "\<forall>c \<in> set t. is_word c" and "\<not> list_all is_digit t"
  shows "before_word (dropWhile is_digit (t @ r))"
  using assms by (induction t) (auto simp: before_word_def)

text \<open>A word that is no string of digits, or that follows a word byte, passes unchanged.\<close>

lemma numbers_pass_word:
  assumes "\<forall>c \<in> set t. is_word c" and "after_word prev \<or> \<not> list_all is_digit t"
  shows "ReplaceAllString numbers repl prev (t @ r) =
           t @ ReplaceAllString numbers repl (if t = [] then prev else Some (last t)) r"
  using assms
proof (induction t arbitrary: prev)
  case Nil
  then show ?case by simp
next
  case (Cons c t)
  have "numbers prev (c # t @ r) = None"
  proof (cases "after_word prev")
    case True
    then show ?thesis by (simp add: numbers_None)
  next
    case False
    with Cons.prems(2) have nd: "\<not> list_all is_digit (c # t)" by simp
    show ?thesis
    proof (cases "is_digit c")
      case True
      with nd have "\<not> list_all is_digit t" by simp
      with Cons.prems(1) have "before_word (dropWhile is_digit (t @ r))"
        by (intro dropWhile_digits_word) simp_all
      with True show ?thesis by (simp add: numbers_None)
    next
      case False
      then show ?thesis by (simp add: numbers_None)
    qed
  qed
  moreover have "ReplaceAllString numbers repl (Some c) (t @ r) =
      t @ ReplaceAllString numbers repl (if t = [] then Some c else Some (last t)) r"
    using Cons.prems(1) by (intro Cons.IH) (simp_all add: after_word_Some)
  ultimately show ?case
    by (simp add: ReplaceAllString.simps(2))
qed

lemma numbers_pass_Join:
  assumes "\<forall>t \<in> set ts. (\<forall>c \<in> set t. is_word c) \<and> \<not> list_all is_digit t"
  shows "ReplaceAllString numbers repl prev (Join ts '' '') = Join ts '' ''"
  using assms
proof (induction ts "'' ''" arbitrary: prev rule: Join.induct)
  case 1
  then show ?case by simp
next
  case (2 t)
  then show ?case
    using numbers_pass_word [of t prev repl "[]"] by simp
next
  case (3 t u ts)
  have sp: "numbers p (CHR '' '' # s) = None" for p s
    by (simp add: numbers_None is_digit_def)
  have "ReplaceAllString numbers repl prev (t @ CHR '' '' # Join (u # ts) '' '') =
        t @ ReplaceAllString numbers repl (if t = [] then prev else Some (last t))
              (CHR '' '' # Join (u # ts) '' '')"
    using "3.prems" by (intro numbers_pass_word) simp_all
  also have "\<dots> = t @ CHR '' '' # ReplaceAllString numbers repl (Some (CHR '' '')) (Join (u # ts) '' '')"
    by (simp add: ReplaceAllString.simps(2) sp)
  also have "\<dots> = t @ CHR '' '' # Join (u # ts) '' ''"
    using "3.prems" by (subst "3.hyps") simp_all
  finally show ?case by simp
qed


section \<open>Properties of the string library\<close>

lemma TrimSpace_subset: "set (TrimSpace s) \<subseteq> set s"
proof -
  have "set (dropWhile P xs) \<subseteq> set xs" for P and xs :: string
    by (auto dest: set_dropWhileD)
  from this [of IsSpace "rev (dropWhile IsSpace s)"] this [of IsSpace s]
  show ?thesis by (auto simp: TrimSpace_def)
qed

lemma filter_dropWhile:
  "(\<And>c. P c \<Longrightarrow> \<not> Q c) \<Longrightarrow> filter P (dropWhile Q xs) = filter P xs"
  by (induction xs) auto

lemma TrimSpace_keeps:
  assumes "\<And>c. P c \<Longrightarrow> \<not> IsSpace c"
  shows "filter P (TrimSpace s) = filter P s"
proof -
  have "filter P (TrimSpace s) = rev (filter P (dropWhile IsSpace (rev (dropWhile IsSpace s))))"
    by (simp add: TrimSpace_def rev_filter)
  also have "\<dots> = rev (filter P (rev (dropWhile IsSpace s)))"
    using assms by (simp add: filter_dropWhile)
  also have "\<dots> = filter P (dropWhile IsSpace s)"
    by (simp add: rev_filter)
  also have "\<dots> = filter P s"
    using assms by (simp add: filter_dropWhile)
  finally show ?thesis .
qed

lemma TrimSpace_clean:
  assumes "s = [] \<or> \<not> IsSpace (hd s) \<and> \<not> IsSpace (last s)"
  shows "TrimSpace s = s"
proof (cases "s = []")
  case True
  then show ?thesis by (simp add: TrimSpace_def)
next
  case False
  with assms have h: "\<not> IsSpace (hd s)" and l: "\<not> IsSpace (last s)" by simp_all
  from h have front: "dropWhile IsSpace s = s"
    by (simp add: dropWhile_eq_self_iff)
  from l False have "dropWhile IsSpace (rev s) = rev s"
    by (simp add: dropWhile_eq_self_iff hd_rev)
  with front show ?thesis
    by (simp add: TrimSpace_def)
qed

lemma fields_from_spaces:
  "\<forall>c \<in> set sp. IsSpace c \<Longrightarrow> fields_from w sp = (if w = [] then [] else [w])"
  by (induction sp arbitrary: w) auto

lemma fields_from_trailing:
  "\<forall>c \<in> set sp. IsSpace c \<Longrightarrow> fields_from w (s @ sp) = fields_from w s"
  by (induction s arbitrary: w) (simp_all add: fields_from_spaces)

lemma fields_from_leading: "fields_from [] (dropWhile IsSpace s) = fields_from [] s"
  by (induction s) simp_all

text \<open>White space at the ends makes no field.\<close>

lemma Fields_TrimSpace: "Fields (TrimSpace s) = Fields s"
proof -
  define u where "u = dropWhile IsSpace s"
  have "u = rev (dropWhile IsSpace (rev u)) @ rev (takeWhile IsSpace (rev u))"
    by (metis rev_append rev_rev_ident takeWhile_dropWhile_id)
  moreover have "\<forall>c \<in> set (rev (takeWhile IsSpace (rev u))). IsSpace c"
    by (auto dest: set_takeWhileD)
  ultimately have "fields_from [] (rev (dropWhile IsSpace (rev u))) = fields_from [] u"
    by (metis fields_from_trailing)
  then show ?thesis
    by (simp add: Fields_def TrimSpace_def u_def fields_from_leading)
qed

lemma fields_from_word:
  "\<forall>c \<in> set t. \<not> IsSpace c \<Longrightarrow> fields_from w (t @ r) = fields_from (w @ t) r"
  by (induction t arbitrary: w) simp_all

text \<open>Splitting what was joined gives the tokens back.\<close>

lemma Fields_Join:
  "\<forall>t \<in> set ts. t \<noteq> [] \<and> (\<forall>c \<in> set t. \<not> IsSpace c) \<Longrightarrow> Fields (Join ts '' '') = ts"
proof (induction ts "'' ''" rule: Join.induct)
  case 1
  then show ?case by (simp add: Fields_def)
next
  case (2 t)
  then show ?case
    using fields_from_word [of t "[]" "[]"] by (simp add: Fields_def)
next
  case (3 t u ts)
  then have "fields_from [] (Join (u # ts) '' '') = u # ts"
    by (simp add: Fields_def)
  moreover have "fields_from [] (t @ CHR '' '' # Join (u # ts) '' '') =
      fields_from t (CHR '' '' # Join (u # ts) '' '')"
    using "3.prems" fields_from_word [of t "[]"] by simp
  ultimately show ?case
    using "3.prems" by (simp add: Fields_def space_IsSpace)
qed

text \<open>A field is not empty and holds no white space.\<close>

lemma fields_from_field:
  assumes "f \<in> set (fields_from w s)" and "\<forall>c \<in> set w. \<not> IsSpace c"
  shows "f \<noteq> [] \<and> (\<forall>c \<in> set f. \<not> IsSpace c \<and> (c \<in> set w \<or> c \<in> set s))"
  using assms
proof (induction s arbitrary: w)
  case Nil
  then show ?case by (cases "w = []") simp_all
next
  case (Cons c cs)
  show ?case
  proof (cases "IsSpace c")
    case False
    with Cons.prems have "f \<in> set (fields_from (w @ [c]) cs)" and "\<forall>x \<in> set (w @ [c]). \<not> IsSpace x"
      by simp_all
    from Cons.IH [OF this] show ?thesis by auto
  next
    case True
    with Cons.prems(1) have "f \<in> set (fields_from [] cs) \<or> (w \<noteq> [] \<and> f = w)"
      by (cases "w = []") auto
    then show ?thesis
    proof
      assume "f \<in> set (fields_from [] cs)"
      from Cons.IH [OF this] show ?thesis by auto
    next
      assume "w \<noteq> [] \<and> f = w"
      with Cons.prems(2) show ?thesis by auto
    qed
  qed
qed

lemma Fields_field:
  "f \<in> set (Fields s) \<Longrightarrow> f \<noteq> [] \<and> (\<forall>c \<in> set f. \<not> IsSpace c \<and> c \<in> set s)"
  using fields_from_field [of f "[]" s] by (simp add: Fields_def)

lemma Join_ends:
  "\<forall>t \<in> set ts. t \<noteq> [] \<and> (\<forall>c \<in> set t. \<not> IsSpace c) \<Longrightarrow>
   Join ts '' '' = [] \<or> \<not> IsSpace (hd (Join ts '' '')) \<and> \<not> IsSpace (last (Join ts '' ''))"
proof (induction ts "'' ''" rule: Join.induct)
  case 1
  then show ?case by simp
next
  case (2 t)
  then show ?case by (cases t) (auto simp: last_in_set)
next
  case (3 t u ts)
  then have "Join (u # ts) '' '' \<noteq> []"
    by (cases ts) auto
  with 3 show ?case
    by (cases t) auto
qed

lemma Join_chars: "c \<in> set (Join ts '' '') \<Longrightarrow> c = CHR '' '' \<or> (\<exists>t \<in> set ts. c \<in> set t)"
  by (induction ts "'' ''" rule: Join.induct) auto


lemma ToLower_clean: "\<forall>c \<in> set s. \<not> is_upper c \<Longrightarrow> ToLower s = s"
  by (simp add: ToLower_def ToLower_char_fixed map_idI)

lemma ToLower_word:
  "\<forall>c \<in> set s. is_word c \<Longrightarrow> \<forall>c \<in> set (ToLower s). is_word c \<and> \<not> is_upper c"
  by (auto simp: ToLower_def ToLower_char_word ToLower_char_not_upper)

section \<open>Properties of the text processor\<close>

lemma stem_suffix_loop_subset: "set (stem_suffix_loop xs word) \<subseteq> set word"
  by (induction xs) (auto simp: TrimSuffix_def dest: in_set_takeD)

lemma stem_prefix_loop_subset: "set (stem_prefix_loop ps word) \<subseteq> set word"
  by (induction ps) (auto simp: TrimPrefix_def Let_def dest: in_set_dropD)

lemma stem_subset: "set (stem word) \<subseteq> set word"
  using stem_prefix_loop_subset [of prefixes "stem_suffix_loop suffixes word"]
    stem_suffix_loop_subset [of suffixes word]
  by (auto simp: stem_def Let_def)

lemma stem_not_empty: "word \<noteq> [] \<Longrightarrow> stem word \<noteq> []"
  using stem_cases [of word] by auto

lemma removePunctuationsAndNumbers_chars:
  assumes "c \<in> set (removePunctuationsAndNumbers text)"
  shows "is_word c \<or> regex_space c"
proof -
  from assms TrimSpace_subset
  have "c \<in> set (ReplaceAllString numbers (literally '' '') None
                  (ReplaceAllString punctuation (literally '' '') None text))"
    by (auto simp: removePunctuationsAndNumbers_def Let_def)
  from numbers_pass_chars [OF this] punctuation_pass_chars [of c None "text"]
  show ?thesis by (auto simp: regex_space_def)
qed

lemma removePunctuationsAndNumbers_fields:
  assumes "f \<in> set (Fields (removePunctuationsAndNumbers text))"
  shows "f \<noteq> [] \<and> (\<forall>c \<in> set f. is_word c) \<and> \<not> list_all is_digit f"
proof -
  have "\<forall>c \<in> set (ReplaceAllString punctuation (literally '' '') None text).
          is_word c \<or> regex_space c"
    using punctuation_pass_chars by blast
  from numbers_pass_fields [OF this] assms have "\<not> list_all is_digit f"
    by (simp add: removePunctuationsAndNumbers_def Let_def Fields_TrimSpace)
  moreover from Fields_field [OF assms] removePunctuationsAndNumbers_chars [of _ "text"]
  have "f \<noteq> [] \<and> (\<forall>c \<in> set f. is_word c)"
    using regex_space_IsSpace by blast
  ultimately show ?thesis by simp
qed

text \<open>A term is not empty and holds digits, lower-case letters and underscores only.\<close>

lemma ProcessText_term:
  assumes "t \<in> set (ProcessText text)"
  shows "t \<noteq> [] \<and> (\<forall>c \<in> set t. is_word c \<and> \<not> is_upper c)"
proof -
  from assms obtain f where f: "f \<in> set (Fields (removePunctuationsAndNumbers text))"
    and t: "t = stem (ToLower f)"
    by (auto simp: ProcessText_def Let_def stemming_def caseFolding_def removeStopwords_def)
  from removePunctuationsAndNumbers_fields [OF f]
  have "f \<noteq> []" and "\<forall>c \<in> set f. is_word c" by simp_all
  then have "ToLower f \<noteq> []" and "\<forall>c \<in> set (ToLower f). is_word c \<and> \<not> is_upper c"
    using ToLower_word [of f] by (simp_all add: ToLower_def)
  with t stem_subset [of "ToLower f"] stem_not_empty [of "ToLower f"] show ?thesis
    by auto
qed


lemma rune_width_ascii: "(of_char c :: nat) < 128 \<Longrightarrow> rune_width (c # cs) = 1"
  by (cases "c # cs" rule: rune_width.cases) (auto simp: byte_in_def)

text \<open>On ASCII text the first pass replaces byte by byte.\<close>

lemma punctuation_pass_ascii:
  "\<forall>c \<in> set s. (of_char c :: nat) < 128 \<Longrightarrow>
   ReplaceAllString punctuation (literally '' '') prev s =
     map (\<lambda>c. if is_word c \<or> regex_space c then c else CHR '' '') s"
proof (induction s arbitrary: prev)
  case Nil
  then show ?case by simp
next
  case (Cons c cs)
  then have w: "rune_width (c # cs) = 1" by (simp add: rune_width_ascii)
  show ?case
  proof (cases "is_word c \<or> regex_space c")
    case True
    then have "punctuation prev (c # cs) = None" by (simp add: punctuation_None)
    with True Cons show ?thesis by (simp add: ReplaceAllString.simps(2))
  next
    case False
    with w have "punctuation prev (c # cs) = Some (Suc 0)" by (simp add: punctuation_def)
    with False Cons show ?thesis by (simp add: ReplaceAllString.simps(2) literally_def)
  qed
qed

text \<open>
  Claim C8, as stated, fails: the underscore is not a letter, a digit or white space, and
  the first normalization step leaves it in place.
\<close>

theorem removePunctuationsAndNumbers_keeps_underscore:
  "removePunctuationsAndNumbers ''a_b'' = ''a_b'' \<and>
   CHR ''_'' \<in> set (removePunctuationsAndNumbers ''a_b'') \<and>
   \<not> (is_letter (CHR ''_'') \<or> is_digit (CHR ''_'') \<or> IsSpace (CHR ''_''))"
  by code_simp

lemma space_is_ascii: "regex_space c \<Longrightarrow> (of_char c :: nat) < 128"
  by (auto simp: regex_space_def)

lemma not_word_not_digit: "\<not> is_word c \<Longrightarrow> \<not> is_digit c"
  by (simp add: is_word_def)

text \<open>The first pass works character by character.\<close>

lemma punctuation_pass_characters_aux:
  "m = punctuation \<Longrightarrow> repl = literally '' '' \<Longrightarrow>
   ReplaceAllString m repl prev s = replace_characters s"
proof (induction m repl prev s rule: ReplaceAllString.induct)
  case (1 m repl prev)
  then show ?case by (simp add: replace_characters_def)
next
  case (2 m repl prev c cs)
  show ?case
  proof (cases "m prev (c # cs)")
    case None
    with "2.prems"(1) have c: "is_word c \<or> regex_space c"
      by (simp add: punctuation_None)
    then have "(of_char c :: nat) < 128"
      using word_is_ascii [of c] space_is_ascii [of c] by blast
    then have "rune_width (c # cs) = 1"
      by (rule rune_width_ascii)
    moreover from c have "kept_character [c]"
      by (auto simp: kept_character_def is_word_def)
    ultimately have "replace_characters (c # cs) = c # replace_characters cs"
      by (simp add: replace_characters_def)
    with "2.IH"(1) [OF None "2.prems"] None show ?thesis
      by (simp add: ReplaceAllString.simps(2))
  next
    case (Some k)
    with "2.prems"(1) have p: "punctuation prev (c # cs) = Some k" by simp
    from punctuation_Some [OF p]
    have c: "\<not> is_word c" "\<not> regex_space c" and kw: "k = rune_width (c # cs)" and "0 < k"
      by simp_all
    define n where "n = k - 1"
    with \<open>0 < k\<close> have k: "k = Suc n" by simp
    from c have "\<not> kept_character (c # take n cs)"
      by (auto simp: kept_character_def is_word_def)
    moreover have "rune_width (c # cs) - Suc 0 = n"
      by (simp add: n_def kw)
    ultimately have "replace_characters (c # cs) = '' '' @ replace_characters (drop n cs)"
      by (simp add: replace_characters_def)
    with "2.IH"(3) [OF Some k "2.prems"] Some k "2.prems"(2) show ?thesis
      by (simp add: ReplaceAllString.simps(2) literally_def)
  qed
qed

lemma punctuation_pass_characters:
  "ReplaceAllString punctuation (literally '' '') prev s = replace_characters s"
  by (rule punctuation_pass_characters_aux [OF refl refl])

text \<open>The second pass works token by token.\<close>

lemma replace_tokens_from_word:
  "\<forall>c \<in> set t. is_word c \<Longrightarrow> replace_tokens_from w (t @ r) = replace_tokens_from (w @ t) r"
  by (induction t arbitrary: w) simp_all

lemma numbers_pass_tokens:
  "\<not> after_word prev \<Longrightarrow>
   ReplaceAllString numbers (literally '' '') prev s = replace_tokens_from [] s"
proof (induction "length s" arbitrary: s prev rule: less_induct)
  case less
  define t where "t = takeWhile is_word s"
  define r where "r = dropWhile is_word s"
  have s: "s = t @ r" by (simp add: t_def r_def)
  have t: "\<forall>c \<in> set t. is_word c"
    by (auto simp: t_def dest: set_takeWhileD)
  have r: "r = [] \<or> (\<exists>c cs. r = c # cs \<and> \<not> is_word c)"
    unfolding r_def by (metis hd_dropWhile list.sel(1) neq_Nil_conv)
  have rest: "ReplaceAllString numbers (literally '' '') (Some p) r =
      (case r of [] \<Rightarrow> [] | c # cs \<Rightarrow> c # replace_tokens_from [] cs)" for p
  proof (cases r)
    case Nil
    then show ?thesis by simp
  next
    case (Cons c cs)
    with r have c: "\<not> is_word c" by simp
    then have "numbers (Some p) (c # cs) = None"
      by (simp add: numbers_None not_word_not_digit)
    moreover have "ReplaceAllString numbers (literally '' '') (Some c) cs = replace_tokens_from [] cs"
      using c by (intro less) (simp_all add: s Cons after_word_Some)
    ultimately show ?thesis
      by (simp add: Cons ReplaceAllString.simps(2))
  qed
  have spec: "replace_tokens_from [] s =
      (if numeric_token t then '' '' else t) @
      (case r of [] \<Rightarrow> [] | c # cs \<Rightarrow> c # replace_tokens_from [] cs)"
  proof -
    have "replace_tokens_from [] s = replace_tokens_from t r"
      unfolding s using replace_tokens_from_word [OF t, of "[]" r] by simp
    also have "\<dots> = (if numeric_token t then '' '' else t) @
      (case r of [] \<Rightarrow> [] | c # cs \<Rightarrow> c # replace_tokens_from [] cs)"
      using r by (auto split: list.splits)
    finally show ?thesis .
  qed
  show ?case
  proof (cases "t = []")
    case True
    show ?thesis
    proof (cases s)
      case Nil
      then show ?thesis by (simp add: numeric_token_def)
    next
      case (Cons c cs)
      with True s have rc: "r = c # cs" by simp
      with r have c: "\<not> is_word c" by simp
      then have "numbers prev (c # cs) = None"
        by (simp add: numbers_None not_word_not_digit)
      moreover have "ReplaceAllString numbers (literally '' '') (Some c) cs = replace_tokens_from [] cs"
        using c by (intro less) (simp_all add: Cons after_word_Some)
      ultimately show ?thesis
        using c by (simp add: Cons ReplaceAllString.simps(2) numeric_token_def)
    qed
  next
    case False
    then obtain c0 t' where t': "t = c0 # t'" by (cases t) auto
    show ?thesis
    proof (cases "list_all is_digit t")
      case True
      have nd: "takeWhile is_digit (t @ r) = t" "dropWhile is_digit (t @ r) = r"
        using True r by (auto simp: list_all_iff takeWhile_append2 dropWhile_append2 not_word_not_digit)
      have nb: "\<not> before_word r"
        using r by (auto simp: before_word_def)
      have tw: "takeWhile is_digit (c0 # t' @ r) = c0 # t'"
        and dw: "dropWhile is_digit (c0 # t' @ r) = r"
        using nd unfolding t' by simp_all
      have "numbers prev (c0 # t' @ r) = Some (Suc (length t'))"
        unfolding numbers_def Let_def tw dw using less.prems nb by simp
      then have "ReplaceAllString numbers (literally '' '') prev s =
          '' '' @ ReplaceAllString numbers (literally '' '') (Some (last t)) r"
        by (simp add: s t' ReplaceAllString.simps(2) literally_def)
      with True False show ?thesis
        by (simp add: spec rest numeric_token_def)
    next
      case nodigits: False
      have "ReplaceAllString numbers (literally '' '') prev (t @ r) =
          t @ ReplaceAllString numbers (literally '' '') (if t = [] then prev else Some (last t)) r"
        using t nodigits by (intro numbers_pass_word) simp_all
      with nodigits False show ?thesis
        by (simp add: s [symmetric] spec rest numeric_token_def)
    qed
  qed
qed

text \<open>
  Claim C8, amended. For every input text, the first normalization step replaces every
  character that is not an ASCII letter, an ASCII digit, the underscore or white space
  (tab, line feed, form feed, carriage return, space) with one space and leaves the other
  characters in place: the underscore stays, and a character outside ASCII goes, letter or
  not. Then it replaces every standalone numeric token, that is every maximal run of
  letters, digits and underscores that consists of digits only, with one space, and trims
  the white space at both ends.
\<close>

theorem removePunctuationsAndNumbers_result:
  "removePunctuationsAndNumbers text =
     TrimSpace (replace_numeric_tokens (replace_characters text))"
  using punctuation_pass_characters [of None "text"]
    numbers_pass_tokens [of None "replace_characters text"]
  by (simp add: removePunctuationsAndNumbers_def replace_numeric_tokens_def after_word_def)

theorem removePunctuationsAndNumbers_result_witness:
  "removePunctuationsAndNumbers example_dash = ''Rumah_baru     lantai  harga     juta  x9 9x'' \<and>
   TrimSpace (replace_numeric_tokens (replace_characters example_dash)) =
     ''Rumah_baru     lantai  harga     juta  x9 9x''"
proof -
  have "TrimSpace (replace_numeric_tokens (replace_characters example_dash)) =
      ''Rumah_baru     lantai  harga     juta  x9 9x''"
    by code_simp
  with removePunctuationsAndNumbers_result [of example_dash] show ?thesis
    by simp
qed


text \<open>
  Claim C5, as stated, fails: the stem of a stem can be shorter still. \<^verbatim>\<open>pendidikan\<close> gives
  the term \<^verbatim>\<open>ndidi\<close>, and \<^verbatim>\<open>ndidi\<close> gives the term \<^verbatim>\<open>ndid\<close>.
\<close>

theorem ProcessText_not_idempotent:
  "ProcessText ''pendidikan'' = [''ndidi''] \<and>
   ProcessText (Join (ProcessText ''pendidikan'') '' '') = [''ndid''] \<and>
   ProcessText (Join (ProcessText ''pendidikan'') '' '') \<noteq> ProcessText ''pendidikan''"
  by code_simp

text \<open>
  Claim C5, amended. Normalizing the space-joined term sequence that the pipeline produced
  yields the same term sequence whenever every term produced is left unchanged by the
  stemmer, is no stopword and is no string of digits.
\<close>

theorem ProcessText_idempotent_on_stable_terms:
  assumes "\<forall>t \<in> set (ProcessText text). stem t = t \<and> t \<notin> set stopWords \<and> \<not> list_all is_digit t"
  shows "ProcessText (Join (ProcessText text) '' '') = ProcessText text"
proof -
  define ts where "ts = ProcessText text"
  have shape: "t \<noteq> [] \<and> (\<forall>c \<in> set t. is_word c \<and> \<not> is_upper c \<and> \<not> IsSpace c)"
    if "t \<in> set ts" for t
    using ProcessText_term [of t "text"] that is_word_not_space by (auto simp: ts_def)
  have stable: "stem t = t \<and> t \<notin> set stopWords \<and> \<not> list_all is_digit t" if "t \<in> set ts" for t
    using assms that by (simp add: ts_def)
  have "\<forall>c \<in> set (Join ts '' ''). is_word c \<or> regex_space c"
    using Join_chars [of _ ts] shape by (auto simp: regex_space_def)
  then have "ReplaceAllString punctuation (literally '' '') None (Join ts '' '') = Join ts '' ''"
    by (rule punctuation_pass_clean)
  moreover have "ReplaceAllString numbers (literally '' '') None (Join ts '' '') = Join ts '' ''"
    using shape stable by (intro numbers_pass_Join) blast
  moreover have "TrimSpace (Join ts '' '') = Join ts '' ''"
    using shape by (intro TrimSpace_clean Join_ends) blast
  ultimately have cleaned: "removePunctuationsAndNumbers (Join ts '' '') = Join ts '' ''"
    by (simp add: removePunctuationsAndNumbers_def)
  have "Fields (Join ts '' '') = ts"
    using shape by (intro Fields_Join) blast
  moreover have lower: "ToLower t = t" if "t \<in> set ts" for t
    using shape [OF that] by (intro ToLower_clean) blast
  ultimately have "removeStopwords (Join ts '' '') = ts"
    using stable by (simp add: removeStopwords_def filter_id_conv)
  moreover have "caseFolding ts = ts"
    using lower by (simp add: caseFolding_def map_idI)
  moreover have "stemming ts = ts"
    using stable by (simp add: stemming_def map_idI)
  ultimately have "ProcessText (Join ts '' '') = ts"
    by (simp only: ProcessText_def Let_def cleaned)
  then show ?thesis
    by (simp add: ts_def)
qed

theorem ProcessText_idempotent_on_stable_terms_witness:
  "ProcessText ''Harga rumah di kota naik tajam tahun ini'' =
     [''harga'', ''rumah'', ''kota'', ''naik'', ''tajam'', ''tahun''] \<and>
   list_all (\<lambda>t. stem t = t \<and> t \<notin> set stopWords \<and> \<not> list_all is_digit t)
     (ProcessText ''Harga rumah di kota naik tajam tahun ini'') \<and>
   ProcessText (Join (ProcessText ''Harga rumah di kota naik tajam tahun ini'') '' '') =
     ProcessText ''Harga rumah di kota naik tajam tahun ini''"
proof -
  let ?T = "''Harga rumah di kota naik tajam tahun ini''"
  have p: "ProcessText ?T = [''harga'', ''rumah'', ''kota'', ''naik'', ''tajam'', ''tahun'']"
    by code_simp
  have s: "list_all (\<lambda>t. stem t = t \<and> t \<notin> set stopWords \<and> \<not> list_all is_digit t)
             [''harga'', ''rumah'', ''kota'', ''naik'', ''tajam'', ''tahun'']"
    by code_simp
  then have "\<forall>t \<in> set (ProcessText ?T). stem t = t \<and> t \<notin> set stopWords \<and> \<not> list_all is_digit t"
    unfolding p by (simp only: list_all_iff)
  from ProcessText_idempotent_on_stable_terms [OF this] p s show ?thesis
    by (simp only: simp_thms)
qed

section \<open>The texts that reach the string library\<close>

text \<open>A pass with a fixed replacement puts in bytes of the replacement only.\<close>

lemma ReplaceAllString_chars_aux:
  "repl = literally r \<Longrightarrow> x \<in> set (ReplaceAllString m repl prev s) \<Longrightarrow> x \<in> set s \<or> x \<in> set r"
proof (induction m repl prev s rule: ReplaceAllString.induct)
  case (1 m repl prev)
  then show ?case by simp
next
  case (2 m repl prev c cs)
  show ?case
  proof (cases "m prev (c # cs)")
    case None
    with "2.prems" have "x = c \<or> x \<in> set (ReplaceAllString m repl (Some c) cs)"
      by (simp add: ReplaceAllString.simps(2))
    with "2.IH"(1) [OF None "2.prems"(1)] show ?thesis by auto
  next
    case (Some k)
    show ?thesis
    proof (cases k)
      case 0
      with Some "2.prems" have "x = c \<or> x \<in> set (ReplaceAllString m repl (Some c) cs)"
        by (simp add: ReplaceAllString.simps(2))
      with "2.IH"(2) [OF Some 0 "2.prems"(1)] show ?thesis by auto
    next
      case (Suc n)
      with Some "2.prems"
      have "x \<in> set r \<or>
            x \<in> set (ReplaceAllString m repl (Some (last (c # take n cs))) (drop n cs))"
        by (simp add: ReplaceAllString.simps(2) literally_def)
      with "2.IH"(3) [OF Some Suc "2.prems"(1)] show ?thesis
        by (auto dest: in_set_dropD)
    qed
  qed
qed

lemma ReplaceAllString_chars:
  "x \<in> set (ReplaceAllString m (literally r) prev s) \<Longrightarrow> x \<in> set s \<or> x \<in> set r"
  by (rule ReplaceAllString_chars_aux [OF refl])

lemma special_chars_None:
  "special_chars prev (c # cs) = None \<longleftrightarrow> is_letter c \<or> is_digit c \<or> regex_space c"
  by (auto simp: special_chars_def Let_def)

lemma special_pass_chars_aux:
  "m = special_chars \<Longrightarrow> repl = literally '' '' \<Longrightarrow>
   x \<in> set (ReplaceAllString m repl prev s) \<Longrightarrow> is_letter x \<or> is_digit x \<or> regex_space x"
proof (induction m repl prev s rule: ReplaceAllString.induct)
  case (1 m repl prev)
  then show ?case by simp
next
  case (2 m repl prev c cs)
  show ?case
  proof (cases "m prev (c # cs)")
    case None
    with "2.prems" have "x = c \<or> x \<in> set (ReplaceAllString m repl (Some c) cs)"
      by (simp add: ReplaceAllString.simps(2))
    moreover from None "2.prems"(1) have "is_letter c \<or> is_digit c \<or> regex_space c"
      by (simp add: special_chars_None)
    ultimately show ?thesis
      using "2.IH"(1) [OF None "2.prems"(1,2)] by auto
  next
    case (Some k)
    with "2.prems"(1) have "k \<noteq> 0"
      by (auto simp: special_chars_def Let_def split: if_splits)
    then obtain n where k: "k = Suc n" by (cases k) simp_all
    with Some "2.prems"
    have "x = CHR '' '' \<or>
          x \<in> set (ReplaceAllString m repl (Some (last (c # take n cs))) (drop n cs))"
      by (simp add: ReplaceAllString.simps(2) literally_def)
    with "2.IH"(3) [OF Some k "2.prems"(1,2)] show ?thesis
      by (auto simp: regex_space_def)
  qed
qed

lemma unique_words_subset: "set (unique_words prev ws) \<subseteq> set ws"
  by (induction prev ws rule: unique_words.induct) auto

text \<open>
  The cleaned content holds ASCII letters, digits and single spaces only; so does the
  text between the passes from the fifth on, but for other white space.
\<close>

lemma cleanContent_chars:
  assumes "x \<in> set (cleanContent content)"
  shows "is_letter x \<or> is_digit x \<or> x = CHR '' ''"
proof -
  define c4 where "c4 = ReplaceAllString (head_nonspaces [''@'']) (literally []) None
    (ReplaceAllString email (literally []) None
      (foldl (\<lambda>c pattern. ReplaceAllString pattern (literally []) None c)
        (foldl (\<lambda>c text. ReplaceAll c text []) content unwantedTexts) urlPatterns))"
  define c5 where "c5 = ReplaceAllString special_chars (literally '' '') None c4"
  define c9 where "c9 = ReplaceAllString spaced_punctuation (literally '' '') None
    (TrimSpace (ReplaceAllString whitespace (literally '' '') None
      (ReplaceAllString spaced_number (literally '' '') None c5)))"
  define joined where "joined = Join (unique_words [] (Fields c9)) '' ''"
  have c5: "is_letter y \<or> is_digit y \<or> regex_space y" if "y \<in> set c5" for y
    using that special_pass_chars_aux [OF refl refl, of y None c4] by (simp add: c5_def)
  have c9: "is_letter y \<or> is_digit y \<or> regex_space y" if "y \<in> set c9" for y
  proof -
    have trim: "z \<in> set (TrimSpace u) \<Longrightarrow> z \<in> set u" for z u
      using TrimSpace_subset by blast
    from that have "y \<in> set c5 \<or> y = CHR '' ''"
      unfolding c9_def
      by (auto dest!: ReplaceAllString_chars trim)
    with c5 show ?thesis by (auto simp: regex_space_def)
  qed
  have joined: "is_letter y \<or> is_digit y \<or> y = CHR '' ''" if "y \<in> set joined" for y
  proof -
    from that Join_chars [of y "unique_words [] (Fields c9)"]
    consider "y = CHR '' ''" | w where "w \<in> set (Fields c9)" "y \<in> set w"
      using unique_words_subset [of "[]" "Fields c9"] by (auto simp: joined_def)
    then show ?thesis
    proof cases
      case 1
      then show ?thesis by simp
    next
      case 2
      with Fields_field [of w c9] have "\<not> IsSpace y" "y \<in> set c9" by auto
      with c9 [of y] show ?thesis by (auto simp: regex_space_IsSpace)
    qed
  qed
  have "cleanContent content =
      ReplaceAllString whitespace (literally '' '') None (TrimSpace joined)"
    by (simp add: cleanContent_def Let_def joined_def c9_def c5_def c4_def)
  moreover have "z \<in> set (TrimSpace u) \<Longrightarrow> z \<in> set u" for z u
    using TrimSpace_subset by blast
  ultimately have "x \<in> set joined \<or> x = CHR '' ''"
    using assms by (auto dest!: ReplaceAllString_chars)
  with joined show ?thesis by auto
qed

section \<open>Properties of the binary64 rounding\<close>



















subsection \<open>Roundings of the example\<close>













section \<open>Properties of the similarity scores in binary64 arithmetic\<close>


















subsection \<open>A cosine score above 1\<close>











end
